theory Spec2Isabelle
  imports Complex_Main "HOL-Library.AList"
begin

section \<open>JavaScript numbers\<close>

text \<open>
  The cart store (src/context/CartContext.tsx) computes on JavaScript values of type
  \<open>number\<close>. A number is modelled as a finite value, \<open>NaN\<close>, \<open>+Infinity\<close> or
  \<open>-Infinity\<close>. Finite values are exact rationals: the rounding and the overflow of
  IEEE-754 doubles and the sign of zero are not modelled. The special values behave as
  ECMAScript prescribes for the operators the store uses.
\<close>

datatype jsnum = Fin rat | NaN | PInf | NInf

text \<open>The operator \<open>a + b\<close> on two numbers.\<close>

fun js_add :: "jsnum \<Rightarrow> jsnum \<Rightarrow> jsnum" where
  "js_add (Fin a) (Fin b) = Fin (a + b)"
| "js_add NaN b = NaN"
| "js_add a NaN = NaN"
| "js_add PInf NInf = NaN"
| "js_add NInf PInf = NaN"
| "js_add PInf b = PInf"
| "js_add a PInf = PInf"
| "js_add NInf b = NInf"
| "js_add a NInf = NInf"

fun js_neg :: "jsnum \<Rightarrow> jsnum" where
  "js_neg (Fin a) = Fin (- a)"
| "js_neg NaN = NaN"
| "js_neg PInf = NInf"
| "js_neg NInf = PInf"

text \<open>The operator \<open>a - b\<close> on two numbers.\<close>

definition js_sub :: "jsnum \<Rightarrow> jsnum \<Rightarrow> jsnum" where
  "js_sub a b = js_add a (js_neg b)"

text \<open>The operator \<open>a * b\<close> on two numbers: an infinity times zero is \<open>NaN\<close>.\<close>

fun js_mul :: "jsnum \<Rightarrow> jsnum \<Rightarrow> jsnum" where
  "js_mul (Fin a) (Fin b) = Fin (a * b)"
| "js_mul NaN b = NaN"
| "js_mul a NaN = NaN"
| "js_mul PInf (Fin b) = (if b = 0 then NaN else if 0 < b then PInf else NInf)"
| "js_mul NInf (Fin b) = (if b = 0 then NaN else if 0 < b then NInf else PInf)"
| "js_mul (Fin a) PInf = (if a = 0 then NaN else if 0 < a then PInf else NInf)"
| "js_mul (Fin a) NInf = (if a = 0 then NaN else if 0 < a then NInf else PInf)"
| "js_mul PInf PInf = PInf"
| "js_mul NInf NInf = PInf"
| "js_mul PInf NInf = NInf"
| "js_mul NInf PInf = NInf"

text \<open>The comparison \<open>a < b\<close>: false whenever an operand is \<open>NaN\<close>.\<close>

fun js_lt :: "jsnum \<Rightarrow> jsnum \<Rightarrow> bool" where
  "js_lt (Fin a) (Fin b) = (a < b)"
| "js_lt NaN b = False"
| "js_lt a NaN = False"
| "js_lt a NInf = False"
| "js_lt PInf b = False"
| "js_lt NInf b = True"
| "js_lt a PInf = True"

text \<open>\<open>Math.max(a, b)\<close>: \<open>NaN\<close> as soon as an argument is \<open>NaN\<close>.\<close>

fun Math_max :: "jsnum \<Rightarrow> jsnum \<Rightarrow> jsnum" where
  "Math_max (Fin a) (Fin b) = Fin (max a b)"
| "Math_max NaN b = NaN"
| "Math_max a NaN = NaN"
| "Math_max PInf b = PInf"
| "Math_max a PInf = PInf"
| "Math_max NInf b = b"
| "Math_max a NInf = a"

text \<open>\<open>Math.trunc(x)\<close>: the integer part, rounding towards zero.\<close>

fun Math_trunc :: "jsnum \<Rightarrow> jsnum" where
  "Math_trunc (Fin a) = Fin (of_int (if 0 \<le> a then \<lfloor>a\<rfloor> else \<lceil>a\<rceil>))"
| "Math_trunc NaN = NaN"
| "Math_trunc PInf = PInf"
| "Math_trunc NInf = NInf"

text \<open>Truthiness of a number: \<open>0\<close> and \<open>NaN\<close> are falsy.\<close>

fun truthy :: "jsnum \<Rightarrow> bool" where
  "truthy (Fin a) = (a \<noteq> 0)"
| "truthy NaN = False"
| "truthy PInf = True"
| "truthy NInf = True"

text \<open>The operator \<open>a || b\<close> on two numbers.\<close>

definition js_or :: "jsnum \<Rightarrow> jsnum \<Rightarrow> jsnum" where
  "js_or a b = (if truthy a then a else b)"

text \<open>
  The arithmetic operators are written \<open>+\<close>, \<open>-\<close> and \<open>*\<close> below. Addition on the model
  is associative and commutative with neutral element \<open>0\<close>, so sums over lists are
  available.
\<close>

instantiation jsnum :: "{comm_monoid_add, minus, times}"
begin

definition zero_jsnum :: jsnum where "zero_jsnum = Fin 0"
definition plus_jsnum :: "jsnum \<Rightarrow> jsnum \<Rightarrow> jsnum" where "plus_jsnum = js_add"
definition minus_jsnum :: "jsnum \<Rightarrow> jsnum \<Rightarrow> jsnum" where "minus_jsnum = js_sub"
definition times_jsnum :: "jsnum \<Rightarrow> jsnum \<Rightarrow> jsnum" where "times_jsnum = js_mul"

instance
proof
  fix a b c :: jsnum
  show "a + b + c = a + (b + c)"
    unfolding plus_jsnum_def by (cases a; cases b; cases c; simp)
  show "a + b = b + a"
    unfolding plus_jsnum_def by (cases a; cases b; simp)
  show "0 + a = a"
    unfolding plus_jsnum_def zero_jsnum_def by (cases a; simp)
qed

end

text \<open>A number is a whole number that is at least one.\<close>

fun int_ge1 :: "jsnum \<Rightarrow> bool" where
  "int_ge1 (Fin a) = (of_int \<lfloor>a\<rfloor> = a \<and> 1 \<le> a)"
| "int_ge1 NaN = False"
| "int_ge1 PInf = False"
| "int_ge1 NInf = False"

section \<open>JSON values and \<open>JSON.parse\<close>\<close>

text \<open>
  The durable copy of the cart is a JSON text in \<open>localStorage\<close>. \<open>JSON.parse\<close> is a
  function of the platform; it is modelled by a recursive-descent parser of the JSON
  grammar (ECMA-404) that returns \<open>None\<close> where \<open>JSON.parse\<close> throws a SyntaxError.
  A repeated key of an object keeps its first position and its last value. The parser
  counts its recursion down from twice the length of the text plus two, which every
  JSON text stays below.
\<close>

datatype jsval =
    JNull
  | JBool bool
  | JNum jsnum
  | JStr string
  | JArr "jsval list"
  | JObj "(string \<times> jsval) list"

definition is_ws :: "char \<Rightarrow> bool" where
  "is_ws c = (c = CHR '' '' \<or> c = CHR 0x09 \<or> c = CHR 0x0A \<or> c = CHR 0x0D)"

definition skip_ws :: "string \<Rightarrow> string" where
  "skip_ws s = dropWhile is_ws s"

definition digit_of :: "char \<Rightarrow> nat option" where
  "digit_of c = map_of (zip ''0123456789'' [0, 1, 2, 3, 4, 5, 6, 7, 8, 9]) c"

definition hex_of :: "char \<Rightarrow> nat option" where
  "hex_of c = map_of (zip ''0123456789abcdefABCDEF''
                 [0, 1, 2, 3, 4, 5, 6, 7, 8, 9, 10, 11, 12, 13, 14, 15, 10, 11, 12, 13, 14, 15]) c"

fun digits :: "string \<Rightarrow> nat list \<times> string" where
  "digits [] = ([], [])"
| "digits (c # cs) =
     (case digit_of c of
        None \<Rightarrow> ([], c # cs)
      | Some d \<Rightarrow> (case digits cs of (ds, r) \<Rightarrow> (d # ds, r)))"

definition nat_of_digits :: "nat list \<Rightarrow> nat" where
  "nat_of_digits ds = foldl (\<lambda>a d. 10 * a + d) 0 ds"

text \<open>The integer part of a number: \<open>0\<close>, or digits that do not start with \<open>0\<close>.\<close>

definition int_part :: "string \<Rightarrow> (nat \<times> string) option" where
  "int_part s =
     (case s of
        [] \<Rightarrow> None
      | c # cs \<Rightarrow>
          if c = CHR ''0'' then Some (0, cs)
          else (case digits s of (ds, r) \<Rightarrow> if ds = [] then None else Some (nat_of_digits ds, r)))"

definition frac_part :: "string \<Rightarrow> (rat \<times> string) option" where
  "frac_part s =
     (case s of
        [] \<Rightarrow> Some (0, s)
      | c # cs \<Rightarrow>
          if c = CHR ''.'' then
            (case digits cs of (ds, r) \<Rightarrow>
               if ds = [] then None
               else Some (of_nat (nat_of_digits ds) / 10 ^ length ds, r))
          else Some (0, s))"

definition exp_part :: "string \<Rightarrow> (int \<times> string) option" where
  "exp_part s =
     (case s of
        [] \<Rightarrow> Some (0, s)
      | c # cs \<Rightarrow>
          if c = CHR ''e'' \<or> c = CHR ''E'' then
            (let (neg, cs') =
               (case cs of
                  [] \<Rightarrow> (False, cs)
                | g # gs \<Rightarrow> if g = CHR ''-'' then (True, gs)
                            else if g = CHR ''+'' then (False, gs) else (False, cs))
             in case digits cs' of (ds, r) \<Rightarrow>
               if ds = [] then None
               else Some (if neg then - int (nat_of_digits ds) else int (nat_of_digits ds), r))
          else Some (0, s))"

definition scale10 :: "rat \<Rightarrow> int \<Rightarrow> rat" where
  "scale10 m e = (if 0 \<le> e then m * 10 ^ nat e else m / 10 ^ nat (- e))"

definition parse_number :: "string \<Rightarrow> (jsval \<times> string) option" where
  "parse_number s =
     (let (neg, s1) = (case s of [] \<Rightarrow> (False, s)
                       | c # cs \<Rightarrow> if c = CHR ''-'' then (True, cs) else (False, s))
      in case int_part s1 of
           None \<Rightarrow> None
         | Some (n, s2) \<Rightarrow>
             (case frac_part s2 of
                None \<Rightarrow> None
              | Some (f, s3) \<Rightarrow>
                  (case exp_part s3 of
                     None \<Rightarrow> None
                   | Some (e, s4) \<Rightarrow>
                       (let m = scale10 (of_nat n + f) e
                        in Some (JNum (Fin (if neg then - m else m)), s4)))))"

definition unescape :: "char \<Rightarrow> char option" where
  "unescape e =
     (if e = CHR 0x22 then Some (CHR 0x22)
      else if e = CHR 0x5C then Some (CHR 0x5C)
      else if e = CHR ''/'' then Some (CHR ''/'')
      else if e = CHR ''b'' then Some (CHR 0x08)
      else if e = CHR ''f'' then Some (CHR 0x0C)
      else if e = CHR ''n'' then Some (CHR 0x0A)
      else if e = CHR ''r'' then Some (CHR 0x0D)
      else if e = CHR ''t'' then Some (CHR 0x09)
      else None)"

text \<open>
  Strings are byte strings here: the code unit of a \<open>\\u\<close> escape is stored in UTF-8
  (one to three bytes), surrogates are not paired.
\<close>

definition utf8 :: "nat \<Rightarrow> string" where
  "utf8 n =
     (if n < 0x80 then [char_of n]
      else if n < 0x800 then [char_of (0xC0 + n div 0x40), char_of (0x80 + n mod 0x40)]
      else [char_of (0xE0 + n div 0x1000), char_of (0x80 + (n div 0x40) mod 0x40),
            char_of (0x80 + n mod 0x40)])"

definition hex4 :: "string \<Rightarrow> nat option" where
  "hex4 s =
     (case map hex_of (take 4 s) of
        [Some a, Some b, Some c, Some d] \<Rightarrow> Some (((a * 16 + b) * 16 + c) * 16 + d)
      | _ \<Rightarrow> None)"

fun string_body :: "string \<Rightarrow> (string \<times> string) option" where
  "string_body [] = None"
| "string_body (c # cs) =
     (if c = CHR 0x22 then Some ([], cs)
      else if c = CHR 0x5C then
        (case cs of
           [] \<Rightarrow> None
         | e # r \<Rightarrow>
             if e = CHR ''u'' then
               (case hex4 r of
                  None \<Rightarrow> None
                | Some n \<Rightarrow>
                    (case string_body (drop 4 r) of
                       None \<Rightarrow> None
                     | Some (t, rest) \<Rightarrow> Some (utf8 n @ t, rest)))
             else
               (case unescape e of
                  None \<Rightarrow> None
                | Some ch \<Rightarrow>
                    (case string_body r of
                       None \<Rightarrow> None
                     | Some (t, rest) \<Rightarrow> Some (ch # t, rest))))
      else if (of_char c :: nat) < 0x20 then None
      else (case string_body cs of
              None \<Rightarrow> None
            | Some (t, rest) \<Rightarrow> Some (c # t, rest)))"

definition literal :: "string \<Rightarrow> jsval \<Rightarrow> string \<Rightarrow> (jsval \<times> string) option" where
  "literal w v s = (if take (length w) s = w then Some (v, drop (length w) s) else None)"

fun parse_value :: "nat \<Rightarrow> string \<Rightarrow> (jsval \<times> string) option"
  and parse_elements :: "nat \<Rightarrow> string \<Rightarrow> (jsval list \<times> string) option"
  and parse_members :: "nat \<Rightarrow> string \<Rightarrow> ((string \<times> jsval) list \<times> string) option"
where
  "parse_value 0 s = None"
| "parse_value (Suc n) s =
     (case skip_ws s of
        [] \<Rightarrow> None
      | c # cs \<Rightarrow>
          if c = CHR ''['' then
            (case skip_ws cs of
               [] \<Rightarrow> None
             | d # ds \<Rightarrow>
                 if d = CHR '']'' then Some (JArr [], ds)
                 else (case parse_elements n cs of
                         None \<Rightarrow> None
                       | Some (vs, r) \<Rightarrow> Some (JArr vs, r)))
          else if c = CHR ''{'' then
            (case skip_ws cs of
               [] \<Rightarrow> None
             | d # ds \<Rightarrow>
                 if d = CHR ''}'' then Some (JObj [], ds)
                 else (case parse_members n cs of
                         None \<Rightarrow> None
                       | Some (kvs, r) \<Rightarrow>
                           Some (JObj (foldl (\<lambda>obj (k, v). AList.update k v obj) [] kvs), r)))
          else if c = CHR 0x22 then
            (case string_body cs of
               None \<Rightarrow> None
             | Some (t, r) \<Rightarrow> Some (JStr t, r))
          else if c = CHR ''t'' then literal ''true'' (JBool True) (c # cs)
          else if c = CHR ''f'' then literal ''false'' (JBool False) (c # cs)
          else if c = CHR ''n'' then literal ''null'' JNull (c # cs)
          else parse_number (c # cs))"
| "parse_elements 0 s = None"
| "parse_elements (Suc n) s =
     (case parse_value n s of
        None \<Rightarrow> None
      | Some (v, r) \<Rightarrow>
          (case skip_ws r of
             [] \<Rightarrow> None
           | c # cs \<Rightarrow>
               if c = CHR '','' then
                 (case parse_elements n cs of
                    None \<Rightarrow> None
                  | Some (vs, r') \<Rightarrow> Some (v # vs, r'))
               else if c = CHR '']'' then Some ([v], cs)
               else None))"
| "parse_members 0 s = None"
| "parse_members (Suc n) s =
     (case skip_ws s of
        [] \<Rightarrow> None
      | q # qs \<Rightarrow>
          if q \<noteq> CHR 0x22 then None
          else
            (case string_body qs of
               None \<Rightarrow> None
             | Some (k, r) \<Rightarrow>
                 (case skip_ws r of
                    [] \<Rightarrow> None
                  | c # cs \<Rightarrow>
                      if c \<noteq> CHR '':'' then None
                      else
                        (case parse_value n cs of
                           None \<Rightarrow> None
                         | Some (v, r') \<Rightarrow>
                             (case skip_ws r' of
                                [] \<Rightarrow> None
                              | d # ds \<Rightarrow>
                                  if d = CHR '','' then
                                    (case parse_members n ds of
                                       None \<Rightarrow> None
                                     | Some (kvs, r'') \<Rightarrow> Some ((k, v) # kvs, r''))
                                  else if d = CHR ''}'' then Some ([(k, v)], ds)
                                  else None)))))"

definition JSON_parse :: "string \<Rightarrow> jsval option" where
  "JSON_parse s =
     (case parse_value (2 * length s + 2) s of
        None \<Rightarrow> None
      | Some (v, r) \<Rightarrow> if skip_ws r = [] then Some v else None)"

section \<open>\<open>JSON.stringify\<close>\<close>

text \<open>
  \<open>JSON.stringify\<close> is a function of the platform as well. The model writes a finite
  number in positional decimal notation (JavaScript switches to exponent notation for
  very large and very small numbers, which \<open>JSON.parse\<close> reads back to the same value),
  \<open>NaN\<close> and the infinities as \<open>null\<close>, a string between double quotes with the
  escapes of ECMAScript, and arrays and objects without white space. A finite number is
  a rational here, so a number without a finite decimal expansion, which no JavaScript
  number is, has no text and is written as \<open>null\<close> too.
\<close>

definition digit_char :: "nat \<Rightarrow> char" where
  "digit_char d = ''0123456789'' ! d"

definition hex_char :: "nat \<Rightarrow> char" where
  "hex_char d = ''0123456789abcdef'' ! d"

fun digits_of :: "nat \<Rightarrow> nat list" where
  "digits_of n = (if n < 10 then [n] else digits_of (n div 10) @ [n mod 10])"

declare digits_of.simps [simp del]

definition print_nat :: "nat \<Rightarrow> string" where
  "print_nat n = map digit_char (digits_of n)"

text \<open>The \<open>k\<close> decimal digits of \<open>n\<close> below \<open>10 ^ k\<close>, leading zeros included.\<close>

fun frac_digits :: "nat \<Rightarrow> nat \<Rightarrow> nat list" where
  "frac_digits 0 n = []"
| "frac_digits (Suc k) n = (n div 10 ^ k) mod 10 # frac_digits k n"

text \<open>
  The number of decimal places of a rational with a finite decimal expansion, searched
  up to a bound.
\<close>

fun dec_places :: "nat \<Rightarrow> rat \<Rightarrow> nat option" where
  "dec_places 0 q = (if of_int \<lfloor>q\<rfloor> = q then Some 0 else None)"
| "dec_places (Suc f) q =
     (if of_int \<lfloor>q\<rfloor> = q then Some 0 else map_option Suc (dec_places f (q * 10)))"

definition places :: "rat \<Rightarrow> nat option" where
  "places q = dec_places (nat (snd (quotient_of q))) q"

definition print_number :: "jsnum \<Rightarrow> string" where
  "print_number x =
     (case x of
        Fin q \<Rightarrow>
          (case places q of
             None \<Rightarrow> ''null''
           | Some k \<Rightarrow>
               (let m = nat \<lfloor>\<bar>q\<bar> * 10 ^ k\<rfloor>
                in (if q < 0 then ''-'' else []) @ print_nat (m div 10 ^ k) @
                   (if k = 0 then [] else ''.'' @ map digit_char (frac_digits k (m mod 10 ^ k)))))
      | _ \<Rightarrow> ''null'')"

definition escape_char :: "char \<Rightarrow> string" where
  "escape_char c =
     (if c = CHR 0x22 then [CHR 0x5C, CHR 0x22]
      else if c = CHR 0x5C then [CHR 0x5C, CHR 0x5C]
      else if c = CHR 0x08 then [CHR 0x5C, CHR ''b'']
      else if c = CHR 0x0C then [CHR 0x5C, CHR ''f'']
      else if c = CHR 0x0A then [CHR 0x5C, CHR ''n'']
      else if c = CHR 0x0D then [CHR 0x5C, CHR ''r'']
      else if c = CHR 0x09 then [CHR 0x5C, CHR ''t'']
      else if (of_char c :: nat) < 0x20 then
        [CHR 0x5C, CHR ''u'', CHR ''0'', CHR ''0'',
         hex_char ((of_char c :: nat) div 16), hex_char ((of_char c :: nat) mod 16)]
      else [c])"

definition quote_string :: "string \<Rightarrow> string" where
  "quote_string s = CHR 0x22 # concat (map escape_char s) @ [CHR 0x22]"

fun commas :: "string list \<Rightarrow> string" where
  "commas [] = []"
| "commas [x] = x"
| "commas (x # y # zs) = x @ '','' @ commas (y # zs)"

fun JSON_stringify :: "jsval \<Rightarrow> string" where
  "JSON_stringify JNull = ''null''"
| "JSON_stringify (JBool b) = (if b then ''true'' else ''false'')"
| "JSON_stringify (JNum n) = print_number n"
| "JSON_stringify (JStr s) = quote_string s"
| "JSON_stringify (JArr vs) = ''['' @ commas (map JSON_stringify vs) @ '']''"
| "JSON_stringify (JObj kvs) =
     ''{'' @ commas (map (\<lambda>kv. quote_string (fst kv) @ '':'' @ JSON_stringify (snd kv)) kvs) @ ''}''"

section \<open>The cart: data model\<close>

text \<open>
  The interface \<open>CartItem\<close>. The fields \<open>id\<close> and \<open>image\<close> are named \<open>id_field\<close> and
  \<open>image_field\<close> here; an optional field is an \<open>option\<close>.
\<close>

record CartItem =
  id_field :: string
  name :: string
  price :: jsnum
  image_field :: "string option"
  quantity :: jsnum
  category :: "string option"
  description :: "string option"
  variation :: "string option"
  inStock :: "bool option"
  originalPrice :: "jsnum option"
  discount :: "jsnum option"

record CartState =
  items :: "CartItem list"

text \<open>The actions of the reducer; an absent \<open>delta\<close> is \<open>None\<close>.\<close>

datatype Action =
    INIT "CartItem list"
  | ADD CartItem
  | REMOVE string
  | CLEAR
  | UPDATE_QTY string jsnum
  | INCREASE_QTY string "jsnum option"
  | DECREASE_QTY string "jsnum option"

section \<open>The reducer\<close>

text \<open>The default value \<open>delta = 1\<close> of a destructured or optional parameter.\<close>

definition delta_default :: "jsnum option \<Rightarrow> jsnum" where
  "delta_default d = (case d of None \<Rightarrow> Fin 1 | Some x \<Rightarrow> x)"

fun reducer :: "CartState \<Rightarrow> Action \<Rightarrow> CartState" where
  "reducer state (INIT payload) = \<lparr>items = payload\<rparr>"
| "reducer state (ADD item) =
     (case find (\<lambda>i. id_field i = id_field item) (items state) of
        Some existing \<Rightarrow>
          \<lparr>items = map (\<lambda>i. if id_field i = id_field item
                              then i\<lparr>quantity := quantity i + quantity item\<rparr> else i)
                        (items state)\<rparr>
      | None \<Rightarrow> \<lparr>items = items state @ [item]\<rparr>)"
| "reducer state (REMOVE ident) =
     \<lparr>items = filter (\<lambda>i. id_field i \<noteq> ident) (items state)\<rparr>"
| "reducer state CLEAR = \<lparr>items = []\<rparr>"
| "reducer state (UPDATE_QTY ident qty) =
     (if js_lt qty (Fin 1) then state
      else \<lparr>items = map (\<lambda>i. if id_field i = ident then i\<lparr>quantity := qty\<rparr> else i)
                         (items state)\<rparr>)"
| "reducer state (INCREASE_QTY ident d) =
     (let delta = delta_default d in
      \<lparr>items = map (\<lambda>i. if id_field i = ident
                          then i\<lparr>quantity := quantity i + Math_max (Fin 1) (Math_trunc delta)\<rparr>
                          else i)
                    (items state)\<rparr>)"
| "reducer state (DECREASE_QTY ident d) =
     (let delta = delta_default d in
      \<lparr>items = map (\<lambda>i. if id_field i = ident
                          then i\<lparr>quantity :=
                                 Math_max (Fin 1)
                                   (quantity i - Math_max (Fin 1) (Math_trunc delta))\<rparr>
                          else i)
                    (items state)\<rparr>)"

section \<open>The public operations of the provider\<close>

text \<open>
  Each helper dispatches one action; the state after the call is the reducer's result.
\<close>

definition initialState :: CartState where
  "initialState = \<lparr>items = []\<rparr>"

definition addToCart :: "CartState \<Rightarrow> CartItem \<Rightarrow> CartState" where
  "addToCart state item =
     (let safeItem = item\<lparr>quantity := Math_max (Fin 1) (Math_trunc (js_or (quantity item) (Fin 1)))\<rparr>
      in reducer state (ADD safeItem))"

definition removeFromCart :: "CartState \<Rightarrow> string \<Rightarrow> CartState" where
  "removeFromCart state ident = reducer state (REMOVE ident)"

definition clearCart :: "CartState \<Rightarrow> CartState" where
  "clearCart state = reducer state CLEAR"

definition updateQuantity :: "CartState \<Rightarrow> string \<Rightarrow> jsnum \<Rightarrow> CartState" where
  "updateQuantity state ident qty =
     (let q = Math_max (Fin 1) (Math_trunc qty)
      in reducer state (UPDATE_QTY ident q))"

definition increaseQty :: "CartState \<Rightarrow> string \<Rightarrow> jsnum option \<Rightarrow> CartState" where
  "increaseQty state ident d = reducer state (INCREASE_QTY ident (Some (delta_default d)))"

definition decreaseQty :: "CartState \<Rightarrow> string \<Rightarrow> jsnum option \<Rightarrow> CartState" where
  "decreaseQty state ident d = reducer state (DECREASE_QTY ident (Some (delta_default d)))"


definition getTotalItems :: "CartState \<Rightarrow> jsnum" where
  "getTotalItems state = foldl (\<lambda>sum it. sum + quantity it) 0 (items state)"

section \<open>Hydration, cross-tab synchronisation and persistence\<close>

definition STORAGE_KEY :: string where
  "STORAGE_KEY = ''cart_items_v1''"

text \<open>
  \<open>localStorage.getItem\<close> returns the stored text, \<open>null\<close> when the key is absent, or
  throws (storage unavailable).
\<close>

datatype storage_read = ReadThrows | ReadValue "string option"

text \<open>
  The parsed payload is cast to \<open>CartItem[]\<close> unchecked. The model reads an element
  through the interface: an object whose fields have the interface's types becomes a
  record. An element that is not of that shape leaves the typed model (\<open>Untyped\<close>): the
  store would carry it along as it is, and what JavaScript then does with it is not
  modelled. Reading \<open>p.quantity\<close> of \<open>null\<close> throws a TypeError (\<open>Thrown\<close>).
\<close>

datatype 'a attempt = Thrown | Untyped | Done 'a

definition opt_str :: "(string \<times> jsval) list \<Rightarrow> string \<Rightarrow> string option option" where
  "opt_str ps k =
     (case map_of ps k of None \<Rightarrow> Some None | Some (JStr s) \<Rightarrow> Some (Some s) | Some _ \<Rightarrow> None)"

definition opt_bool :: "(string \<times> jsval) list \<Rightarrow> string \<Rightarrow> bool option option" where
  "opt_bool ps k =
     (case map_of ps k of None \<Rightarrow> Some None | Some (JBool b) \<Rightarrow> Some (Some b) | Some _ \<Rightarrow> None)"

definition opt_num :: "(string \<times> jsval) list \<Rightarrow> string \<Rightarrow> jsnum option option" where
  "opt_num ps k =
     (case map_of ps k of None \<Rightarrow> Some None | Some (JNum n) \<Rightarrow> Some (Some n) | Some _ \<Rightarrow> None)"

text \<open>The object \<open>{...p, quantity: q}\<close> read as a \<open>CartItem\<close>.\<close>

definition as_CartItem :: "(string \<times> jsval) list \<Rightarrow> jsnum \<Rightarrow> CartItem option" where
  "as_CartItem ps q =
     (case (map_of ps ''id'', map_of ps ''name'', map_of ps ''price'') of
        (Some (JStr i), Some (JStr n), Some (JNum p)) \<Rightarrow>
          (case (opt_str ps ''image'', opt_str ps ''category'', opt_str ps ''description'',
                 opt_str ps ''variation'', opt_bool ps ''inStock'',
                 opt_num ps ''originalPrice'', opt_num ps ''discount'') of
             (Some im, Some ca, Some de, Some va, Some st, Some orig, Some di) \<Rightarrow>
               Some \<lparr>id_field = i, name = n, price = p, image_field = im, quantity = q,
                     category = ca, description = de, variation = va, inStock = st,
                     originalPrice = orig, discount = di\<rparr>
           | _ \<Rightarrow> None)
      | _ \<Rightarrow> None)"

text \<open>
  \<open>p.quantity || 1\<close> on a property that may be absent: \<open>undefined\<close>, \<open>null\<close>, \<open>false\<close>,
  \<open>0\<close>, \<open>NaN\<close> and the empty string are falsy.
\<close>

fun or_one :: "jsval option \<Rightarrow> jsval" where
  "or_one None = JNum (Fin 1)"
| "or_one (Some JNull) = JNum (Fin 1)"
| "or_one (Some (JBool b)) = (if b then JBool b else JNum (Fin 1))"
| "or_one (Some (JNum n)) = JNum (js_or n (Fin 1))"
| "or_one (Some (JStr s)) = (if s = [] then JNum (Fin 1) else JStr s)"
| "or_one (Some v) = v"

text \<open>
  The conversion to a number that \<open>Math.trunc\<close> applies to its argument. The conversion
  of a string, an array or an object is not modelled (\<open>None\<close>).
\<close>

fun ToNumber :: "jsval \<Rightarrow> jsnum option" where
  "ToNumber (JNum n) = Some n"
| "ToNumber (JBool b) = Some (if b then Fin 1 else Fin 0)"
| "ToNumber JNull = Some (Fin 0)"
| "ToNumber v = None"

text \<open>
  One step of \<open>parsed.map((p) => ({ ...p, quantity: Math.max(1, Math.trunc(p.quantity || 1)) }))\<close>.
\<close>

fun safe_entry :: "jsval \<Rightarrow> CartItem attempt" where
  "safe_entry JNull = Thrown"
| "safe_entry (JObj ps) =
     (case ToNumber (or_one (map_of ps ''quantity'')) of
        None \<Rightarrow> Untyped
      | Some n \<Rightarrow>
          (case as_CartItem ps (Math_max (Fin 1) (Math_trunc n)) of
             None \<Rightarrow> Untyped
           | Some it \<Rightarrow> Done it))"
| "safe_entry v = Untyped"

text \<open>The whole \<open>map\<close>: a TypeError at any element abandons it.\<close>

fun safe_entries :: "jsval list \<Rightarrow> CartItem list attempt" where
  "safe_entries [] = Done []"
| "safe_entries (p # ps) =
     (case safe_entry p of
        Thrown \<Rightarrow> Thrown
      | Untyped \<Rightarrow> (case safe_entries ps of Thrown \<Rightarrow> Thrown | _ \<Rightarrow> Untyped)
      | Done it \<Rightarrow>
          (case safe_entries ps of
             Thrown \<Rightarrow> Thrown
           | Untyped \<Rightarrow> Untyped
           | Done rest \<Rightarrow> Done (it # rest)))"

text \<open>
  What an effect does: it dispatches an action, it dispatches nothing, or the payload
  left the typed model.
\<close>

datatype outcome = Dispatch Action | NoDispatch | OutsideModel

text \<open>
  The effect that initialises the store once from storage. Every exception inside the
  \<open>try\<close> block is caught and answered with \<open>INIT []\<close>.
\<close>

definition hydrate :: "bool \<Rightarrow> storage_read \<Rightarrow> outcome" where
  "hydrate isBrowser rd =
     (if \<not> isBrowser then NoDispatch
      else case rd of
        ReadThrows \<Rightarrow> Dispatch (INIT [])
      | ReadValue None \<Rightarrow> Dispatch (INIT [])
      | ReadValue (Some raw) \<Rightarrow>
          if raw = [] then Dispatch (INIT [])
          else (case JSON_parse raw of
                  None \<Rightarrow> Dispatch (INIT [])
                | Some (JArr parsed) \<Rightarrow>
                    (case safe_entries parsed of
                       Thrown \<Rightarrow> Dispatch (INIT [])
                     | Untyped \<Rightarrow> OutsideModel
                     | Done safe \<Rightarrow> Dispatch (INIT safe))
                | Some _ \<Rightarrow> Dispatch (INIT [])))"

text \<open>
  The handler of a \<open>storage\<close> event with the event's \<open>key\<close> and \<open>newValue\<close> (each
  \<open>null\<close> or a string). An exception inside its \<open>try\<close> block is caught and ignored.
\<close>

definition onStorage :: "string option \<Rightarrow> string option \<Rightarrow> outcome" where
  "onStorage key newValue =
     (if key \<noteq> Some STORAGE_KEY then NoDispatch
      else case (case newValue of
                   None \<Rightarrow> Some (JArr [])
                 | Some t \<Rightarrow> if t = [] then Some (JArr []) else JSON_parse t) of
        None \<Rightarrow> NoDispatch
      | Some (JArr newVal) \<Rightarrow>
          (case safe_entries newVal of
             Thrown \<Rightarrow> NoDispatch
           | Untyped \<Rightarrow> OutsideModel
           | Done safe \<Rightarrow> Dispatch (INIT safe))
      | Some _ \<Rightarrow> NoDispatch)"

text \<open>The state after an effect; \<open>None\<close> when the payload left the typed model.\<close>

definition after :: "CartState \<Rightarrow> outcome \<Rightarrow> CartState option" where
  "after state out =
     (case out of
        Dispatch a \<Rightarrow> Some (reducer state a)
      | NoDispatch \<Rightarrow> Some state
      | OutsideModel \<Rightarrow> None)"

text \<open>
  The debounced effect writes \<open>JSON.stringify(state.items)\<close> under the storage key. A
  line is an object that has the fields of the interface; the model lists them in the
  interface's order (JavaScript keeps the order in which the caller created them, and
  what the parser returns is read by name). An absent optional field has no property.
\<close>

definition opt_prop :: "string \<Rightarrow> ('a \<Rightarrow> jsval) \<Rightarrow> 'a option \<Rightarrow> (string \<times> jsval) list" where
  "opt_prop k f x = (case x of None \<Rightarrow> [] | Some v \<Rightarrow> [(k, f v)])"

definition to_json :: "CartItem \<Rightarrow> jsval" where
  "to_json it =
     JObj ([(''id'', JStr (id_field it)), (''name'', JStr (name it)), (''price'', JNum (price it))] @
           opt_prop ''image'' JStr (image_field it) @
           [(''quantity'', JNum (quantity it))] @
           opt_prop ''category'' JStr (category it) @
           opt_prop ''description'' JStr (description it) @
           opt_prop ''variation'' JStr (variation it) @
           opt_prop ''inStock'' JBool (inStock it) @
           opt_prop ''originalPrice'' JNum (originalPrice it) @
           opt_prop ''discount'' JNum (discount it))"

definition persist :: "CartState \<Rightarrow> string" where
  "persist state = JSON_stringify (JArr (map to_json (items state)))"

section \<open>The sanitisation in the words of the specification\<close>


section \<open>Notions used in the proofs\<close>

text \<open>The \<open>id\<close> property of each element of a parsed payload, where it has one.\<close>

definition payload_ids :: "jsval list \<Rightarrow> jsval option list" where
  "payload_ids vs = map (\<lambda>p. case p of JObj ps \<Rightarrow> map_of ps ''id'' | _ \<Rightarrow> None) vs"


text \<open>
  What may follow a number or a value in a JSON text, the recursion depth the parser
  needs for a value, the values that \<open>JSON.stringify\<close> writes without loss, and the
  lines whose numbers are all of that kind and whose quantity is a whole number from
  one on.
\<close>

definition not_digit_start :: "string \<Rightarrow> bool" where
  "not_digit_start r = (case r of [] \<Rightarrow> True | c # cs \<Rightarrow> digit_of c = None)"

definition number_end :: "string \<Rightarrow> bool" where
  "number_end r =
     (case r of [] \<Rightarrow> True
      | c # cs \<Rightarrow> digit_of c = None \<and> c \<noteq> CHR ''.'' \<and> c \<noteq> CHR ''e'' \<and> c \<noteq> CHR ''E'')"

fun fuel :: "jsval \<Rightarrow> nat" where
  "fuel (JArr vs) = Suc (sum_list (map (\<lambda>v. Suc (fuel v)) vs))"
| "fuel (JObj kvs) = Suc (sum_list (map (\<lambda>kv. Suc (fuel (snd kv))) kvs))"
| "fuel v = 1"

fun printable :: "jsval \<Rightarrow> bool" where
  "printable (JNum n) = (case n of Fin q \<Rightarrow> places q \<noteq> None | _ \<Rightarrow> False)"
| "printable (JArr vs) = list_all printable vs"
| "printable (JObj kvs) = (distinct (map fst kvs) \<and> list_all (\<lambda>kv. printable (snd kv)) kvs)"
| "printable v = True"

definition delim :: "string \<Rightarrow> bool" where
  "delim r = (case r of [] \<Rightarrow> True | c # cs \<Rightarrow> c = CHR '','' \<or> c = CHR '']'' \<or> c = CHR ''}'')"

definition roundtrips :: "jsval \<Rightarrow> bool" where
  "roundtrips v \<longleftrightarrow>
     (\<forall>n r. delim r \<longrightarrow> fuel v \<le> n \<longrightarrow> parse_value n (JSON_stringify v @ r) = Some (v, r))"

definition member_text :: "string \<times> jsval \<Rightarrow> string" where
  "member_text kv = quote_string (fst kv) @ '':'' @ JSON_stringify (snd kv)"

definition decimal :: "jsnum \<Rightarrow> bool" where
  "decimal x = (case x of Fin q \<Rightarrow> places q \<noteq> None | _ \<Rightarrow> False)"

definition opt_decimal :: "jsnum option \<Rightarrow> bool" where
  "opt_decimal x = (case x of None \<Rightarrow> True | Some n \<Rightarrow> decimal n)"

definition storable :: "CartItem \<Rightarrow> bool" where
  "storable it \<longleftrightarrow>
     int_ge1 (quantity it) \<and> decimal (price it) \<and>
     opt_decimal (originalPrice it) \<and> opt_decimal (discount it)"

section \<open>Sample data\<close>

text \<open>A line with the given id, price and quantity, used in the examples below.\<close>

definition line :: "string \<Rightarrow> jsnum \<Rightarrow> jsnum \<Rightarrow> CartItem" where
  "line ident p q =
     \<lparr>id_field = ident, name = ''item'', price = p, image_field = None, quantity = q,
      category = None, description = None, variation = None, inStock = None,
      originalPrice = None, discount = None\<rparr>"

text \<open>Durable copies used in the examples.\<close>

definition stored_duplicate :: string where
  \<open>stored_duplicate =
     ''[{"id":"a","name":"item","price":100,"quantity":1},{"id":"a","name":"item","price":100,"quantity":2}]''\<close>

definition stored_fraction :: string where
  \<open>stored_fraction =
     ''[{"id":"a","name":"item","price":100,"quantity":2.7},{"id":"b","name":"item","price":50,"quantity":0}]''\<close>

definition stored_object :: string where
  \<open>stored_object = ''{"a":1}''\<close>

definition stored_pair :: string where
  \<open>stored_pair =
     ''[{"id":"a","name":"item","price":19.99,"quantity":2},{"id":"b","name":"item","price":50,"quantity":1}]''\<close>

section \<open>Properties\<close>

subsection \<open>Auxiliary facts\<close>


lemma clamp_below_one: "js_lt q (Fin 1) \<Longrightarrow> Math_max (Fin 1) (Math_trunc q) = Fin 1"
proof (cases q)
  case (Fin a)
  assume "js_lt q (Fin 1)"
  with Fin have a: "a < 1" by simp
  show ?thesis
  proof (cases "0 \<le> a")
    case True
    with a have "\<lfloor>a\<rfloor> = 0" by linarith
    with True Fin show ?thesis by simp
  next
    case False
    then have "\<lceil>a\<rceil> \<le> 0" by linarith
    then have "(of_int \<lceil>a\<rceil> :: rat) \<le> 0" by simp
    then have "max 1 (of_int \<lceil>a\<rceil> :: rat) = 1" by simp
    with False Fin show ?thesis by simp
  qed
qed simp_all

lemma clamp_not_below_one: "\<not> js_lt (Math_max (Fin 1) (Math_trunc q)) (Fin 1)"
  by (cases q) simp_all


lemma map_absent:
  "ident \<notin> id_field ` set xs \<Longrightarrow> map (\<lambda>i. if id_field i = ident then f i else i) xs = xs"
  by (induction xs) auto

lemma ids_kept:
  "id_field \<circ> (\<lambda>i. if id_field i = ident then i\<lparr>quantity := g i\<rparr> else i) = id_field"
  by (auto simp: fun_eq_iff)

lemma find_present:
  "a \<in> id_field ` set xs \<Longrightarrow> \<exists>e. find (\<lambda>i. id_field i = a) xs = Some e"
  by (induction xs) auto

lemma find_absent:
  "a \<notin> id_field ` set xs \<Longrightarrow> find (\<lambda>i. id_field i = a) xs = None"
  by (induction xs) auto

lemma addToCart_present:
  assumes "id_field item \<in> id_field ` set (items state)"
  shows "items (addToCart state item) =
           map (\<lambda>i. if id_field i = id_field item
                      then i\<lparr>quantity := quantity i +
                             Math_max (Fin 1) (Math_trunc (js_or (quantity item) (Fin 1)))\<rparr>
                      else i) (items state)"
proof -
  obtain e where "find (\<lambda>i. id_field i = id_field item) (items state) = Some e"
    using find_present [OF assms] by blast
  then show ?thesis by (simp add: addToCart_def)
qed

lemma addToCart_absent:
  assumes "id_field item \<notin> id_field ` set (items state)"
  shows "items (addToCart state item) =
           items state @
           [item\<lparr>quantity := Math_max (Fin 1) (Math_trunc (js_or (quantity item) (Fin 1)))\<rparr>]"
  using find_absent [OF assms] by (simp add: addToCart_def)



lemma addToCart_distinct:
  assumes "distinct (map id_field (items state))"
  shows "distinct (map id_field (items (addToCart state item)))"
proof (cases "id_field item \<in> id_field ` set (items state)")
  case True
  show ?thesis using assms by (simp add: addToCart_present [OF True] ids_kept)
next
  case False
  show ?thesis using assms False by (simp add: addToCart_absent [OF False])
qed










lemma safe_entry_id:
  "safe_entry p = Done it \<Longrightarrow> (case p of JObj ps \<Rightarrow> map_of ps ''id'' | _ \<Rightarrow> None) = Some (JStr (id_field it))"
  by (cases p) (auto simp: as_CartItem_def split: option.splits jsval.splits)

lemma safe_entries_ids:
  "safe_entries vs = Done safe \<Longrightarrow> map (\<lambda>it. Some (JStr (id_field it))) safe = payload_ids vs"
proof (induction vs arbitrary: safe)
  case Nil
  then show ?case by (simp add: payload_ids_def)
next
  case (Cons p vs)
  then show ?case
    using safe_entry_id [of p]
    by (auto simp: payload_ids_def split: attempt.splits)
qed

lemma safe_entries_null: "JNull \<in> set vs \<Longrightarrow> safe_entries vs = Thrown"
  by (induction vs) (auto split: attempt.splits)

subsection \<open>Printing and parsing JSON\<close>

lemma digit_of_digit_char: "d < 10 \<Longrightarrow> digit_of (digit_char d) = Some d"
proof -
  have "list_all (\<lambda>d. digit_of (digit_char d) = Some d) [0..<10]" by code_simp
  moreover assume "d < 10"
  ultimately show ?thesis by (simp add: list_all_iff)
qed

lemma digit_char_zero: "d < 10 \<Longrightarrow> digit_char d = CHR ''0'' \<longleftrightarrow> d = 0"
proof -
  have "list_all (\<lambda>d. digit_char d = CHR ''0'' \<longleftrightarrow> d = 0) [0..<10]" by code_simp
  moreover assume "d < 10"
  ultimately show ?thesis by (simp add: list_all_iff)
qed

lemma digits_print:
  "\<forall>d \<in> set ds. d < 10 \<Longrightarrow> not_digit_start r \<Longrightarrow> digits (map digit_char ds @ r) = (ds, r)"
proof (induction ds)
  case Nil
  then show ?case by (cases r) (auto simp: not_digit_start_def)
next
  case (Cons d ds)
  then show ?case by (simp add: digit_of_digit_char)
qed

lemma digits_of_lt10: "d \<in> set (digits_of n) \<Longrightarrow> d < 10"
proof (induction n arbitrary: d rule: digits_of.induct)
  case (1 n)
  then show ?case
    by (subst (asm) (2) digits_of.simps) (auto split: if_splits)
qed

lemma nat_of_digits_snoc: "nat_of_digits (ds @ [d]) = 10 * nat_of_digits ds + d"
  by (simp add: nat_of_digits_def)

lemma nat_of_digits_of: "nat_of_digits (digits_of n) = n"
proof (induction n rule: digits_of.induct)
  case (1 n)
  show ?case
  proof (cases "n < 10")
    case True
    then show ?thesis by (subst digits_of.simps) (simp add: nat_of_digits_def)
  next
    case False
    with 1 show ?thesis
      by (subst digits_of.simps) (simp add: nat_of_digits_snoc)
  qed
qed

lemma digits_of_nonempty: "digits_of n \<noteq> []"
  by (subst digits_of.simps) simp

lemma hd_digits_of: "hd (digits_of n) = 0 \<longleftrightarrow> n = 0"
proof (induction n rule: digits_of.induct)
  case (1 n)
  show ?case
  proof (cases "n < 10")
    case True
    then show ?thesis by (subst digits_of.simps) simp
  next
    case False
    then have "n div 10 \<noteq> 0" by simp
    with False 1 show ?thesis
      by (subst digits_of.simps) (simp add: digits_of_nonempty)
  qed
qed

lemma int_part_print:
  assumes "not_digit_start r"
  shows "int_part (print_nat n @ r) = Some (n, r)"
proof (cases "n = 0")
  case True
  then show ?thesis
    by (simp add: print_nat_def int_part_def digits_of.simps digit_char_def)
next
  case False
  obtain d ds where ds: "digits_of n = d # ds"
    using digits_of_nonempty [of n] by (cases "digits_of n") auto
  have lt: "\<forall>x \<in> set (digits_of n). x < 10" using digits_of_lt10 by blast
  have "d \<noteq> 0" using hd_digits_of [of n] False ds by simp
  moreover have "d < 10" using lt ds by simp
  ultimately have c: "digit_char d \<noteq> CHR ''0''" by (simp add: digit_char_zero)
  have "digits (print_nat n @ r) = (digits_of n, r)"
    unfolding print_nat_def using lt assms by (rule digits_print)
  moreover have "nat_of_digits (d # ds) = n" using nat_of_digits_of [of n] ds by simp
  ultimately show ?thesis using c ds
    by (simp add: int_part_def print_nat_def del: digits.simps)
qed

lemma length_frac_digits: "length (frac_digits k n) = k"
  by (induction k) auto

lemma frac_digits_lt10: "d \<in> set (frac_digits k n) \<Longrightarrow> d < 10"
  by (induction k) auto

lemma nat_of_digits_Cons: "nat_of_digits (d # ds) = d * 10 ^ length ds + nat_of_digits ds"
proof (induction ds arbitrary: d rule: rev_induct)
  case Nil
  then show ?case by (simp add: nat_of_digits_def)
next
  case (snoc x xs)
  have "nat_of_digits (d # xs @ [x]) = 10 * nat_of_digits (d # xs) + x"
    using nat_of_digits_snoc [of "d # xs" x] by simp
  then show ?case by (simp add: snoc nat_of_digits_snoc algebra_simps)
qed

lemma nat_of_frac_digits: "nat_of_digits (frac_digits k n) = n mod 10 ^ k"
proof (induction k)
  case 0
  then show ?case by (simp add: nat_of_digits_def)
next
  case (Suc k)
  have "n mod (10 ^ k * 10) = 10 ^ k * (n div 10 ^ k mod 10) + n mod 10 ^ k"
    by (rule mod_mult2_eq)
  then show ?case
    by (simp add: nat_of_digits_Cons Suc length_frac_digits algebra_simps)
qed

lemma frac_part_print:
  assumes "not_digit_start r" and "0 < k" and "f < 10 ^ k"
  shows "frac_part (CHR ''.'' # map digit_char (frac_digits k f) @ r) = Some (of_nat f / 10 ^ k, r)"
proof -
  have "digits (map digit_char (frac_digits k f) @ r) = (frac_digits k f, r)"
    using assms(1) by (intro digits_print) (auto dest: frac_digits_lt10)
  moreover have "frac_digits k f \<noteq> []"
    using assms(2) length_frac_digits [of k f] by auto
  moreover have "nat_of_digits (frac_digits k f) = f"
    using assms(3) by (simp add: nat_of_frac_digits)
  ultimately show ?thesis
    by (simp add: frac_part_def length_frac_digits del: digits.simps)
qed

lemma number_end_not_digit: "number_end r \<Longrightarrow> not_digit_start r"
  by (auto simp: number_end_def not_digit_start_def split: list.splits)

lemma frac_part_none: "number_end r \<Longrightarrow> frac_part r = Some (0, r)"
  by (auto simp: number_end_def frac_part_def split: list.splits)

lemma exp_part_none: "number_end r \<Longrightarrow> exp_part r = Some (0, r)"
  by (auto simp: number_end_def exp_part_def split: list.splits)

lemma dec_places_int:
  "dec_places f q = Some k \<Longrightarrow> of_int \<lfloor>q * 10 ^ k\<rfloor> = q * 10 ^ k"
proof (induction f arbitrary: q k)
  case 0
  then show ?case by (auto split: if_splits)
next
  case (Suc f)
  show ?case
  proof (cases "of_int \<lfloor>q\<rfloor> = q")
    case True
    with Suc.prems show ?thesis by simp
  next
    case False
    with Suc.prems obtain k' where k': "dec_places f (q * 10) = Some k'" "k = Suc k'"
      by auto
    from Suc.IH [OF k'(1)] k'(2) show ?thesis by (simp add: mult.assoc)
  qed
qed

lemma places_abs_int:
  assumes "places q = Some k"
  shows "of_nat (nat \<lfloor>\<bar>q\<bar> * 10 ^ k\<rfloor>) = \<bar>q\<bar> * 10 ^ k"
proof -
  have i: "of_int \<lfloor>q * 10 ^ k\<rfloor> = q * 10 ^ k"
    using assms dec_places_int by (simp add: places_def)
  define z where "z = \<lfloor>q * 10 ^ k\<rfloor>"
  have z: "q * 10 ^ k = of_int z" using i by (simp only: z_def)
  have "\<bar>q\<bar> * 10 ^ k = \<bar>q * 10 ^ k\<bar>" by (simp add: abs_mult)
  also have "\<dots> = of_int \<bar>z\<bar>" by (simp only: z of_int_abs)
  finally have e: "\<bar>q\<bar> * 10 ^ k = of_int \<bar>z\<bar>" .
  show ?thesis by (simp add: e)
qed

lemma print_nat_first:
  "\<exists>c cs. print_nat n = c # cs \<and> digit_of c \<noteq> None"
proof -
  obtain d ds where ds: "digits_of n = d # ds"
    using digits_of_nonempty [of n] by (cases "digits_of n") auto
  then have "d < 10" using digits_of_lt10 [of d n] by simp
  then have "digit_of (digit_char d) \<noteq> None" by (simp add: digit_of_digit_char)
  with ds show ?thesis by (simp add: print_nat_def)
qed

lemma split_value:
  fixes m k :: nat
  shows "(of_nat (m div 10 ^ k) :: rat) + of_nat (m mod 10 ^ k) / 10 ^ k = of_nat m / 10 ^ k"
proof -
  have "(m div 10 ^ k) * 10 ^ k + m mod 10 ^ k = m" by (rule div_mult_mod_eq)
  then have "(of_nat ((m div 10 ^ k) * 10 ^ k + m mod 10 ^ k) :: rat) = of_nat m" by simp
  then have "(of_nat (m div 10 ^ k) :: rat) * 10 ^ k + of_nat (m mod 10 ^ k) = of_nat m"
    by (simp only: of_nat_add of_nat_mult of_nat_power of_nat_numeral)
  then show ?thesis by (simp add: field_simps)
qed

lemma dot_not_digit: "digit_of CHR ''.'' = None"
  by (simp add: digit_of_def)

lemma minus_not_digit: "digit_of CHR ''-'' = None"
  by (simp add: digit_of_def)

text \<open>The digits of a non-negative number, read back by the three parts of the number parser.\<close>

lemma parse_unsigned:
  fixes m k :: nat
  assumes "number_end r"
  defines "tail \<equiv> (if k = 0 then [] else CHR ''.'' # map digit_char (frac_digits k (m mod 10 ^ k)))"
  shows "\<exists>f. int_part (print_nat (m div 10 ^ k) @ tail @ r) = Some (m div 10 ^ k, tail @ r) \<and>
             frac_part (tail @ r) = Some (f, r) \<and> exp_part r = Some (0, r) \<and>
             of_nat (m div 10 ^ k) + f = (of_nat m / 10 ^ k :: rat)"
proof -
  have nd: "not_digit_start (tail @ r)"
  proof (cases "k = 0")
    case True
    then show ?thesis using assms(1) by (simp add: tail_def number_end_not_digit)
  next
    case False
    then show ?thesis by (simp add: tail_def not_digit_start_def dot_not_digit)
  qed
  have ip: "int_part (print_nat (m div 10 ^ k) @ tail @ r) = Some (m div 10 ^ k, tail @ r)"
    using nd by (rule int_part_print)
  have ep: "exp_part r = Some (0, r)" using assms(1) by (rule exp_part_none)
  show ?thesis
  proof (cases "k = 0")
    case True
    then have "frac_part (tail @ r) = Some (0, r)"
      using assms(1) by (simp add: tail_def frac_part_none)
    moreover have "of_nat (m div 10 ^ k) + 0 = (of_nat m / 10 ^ k :: rat)" using True by simp
    ultimately show ?thesis using ip ep by blast
  next
    case False
    have "m mod 10 ^ k < 10 ^ k" by simp
    then have "frac_part (CHR ''.'' # map digit_char (frac_digits k (m mod 10 ^ k)) @ r)
                 = Some (of_nat (m mod 10 ^ k) / 10 ^ k, r)"
      using False assms(1) by (intro frac_part_print number_end_not_digit) auto
    then have "frac_part (tail @ r) = Some (of_nat (m mod 10 ^ k) / 10 ^ k, r)"
      using False by (simp add: tail_def)
    then show ?thesis using ip ep split_value [of m k] by blast
  qed
qed

lemma parse_number_print:
  assumes "places q = Some k" and "number_end r"
  shows "parse_number (print_number (Fin q) @ r) = Some (JNum (Fin q), r)"
proof -
  define m where "m = nat \<lfloor>\<bar>q\<bar> * 10 ^ k\<rfloor>"
  define tail where
    "tail = (if k = 0 then [] else CHR ''.'' # map digit_char (frac_digits k (m mod 10 ^ k)))"
  define body where "body = print_nat (m div 10 ^ k) @ tail @ r"
  have m: "of_nat m = \<bar>q\<bar> * 10 ^ k" unfolding m_def using assms(1) by (rule places_abs_int)
  then have v: "(of_nat m / 10 ^ k :: rat) = \<bar>q\<bar>" by simp
  obtain f where ip: "int_part body = Some (m div 10 ^ k, tail @ r)"
    and fp: "frac_part (tail @ r) = Some (f, r)" and ep: "exp_part r = Some (0, r)"
    and val: "of_nat (m div 10 ^ k) + f = (of_nat m / 10 ^ k :: rat)"
    using parse_unsigned [OF assms(2), of m k] unfolding body_def tail_def by blast
  have shape: "print_number (Fin q) @ r = (if q < 0 then ''-'' else []) @ body"
    using assms(1) by (simp add: print_number_def Let_def m_def body_def tail_def)
  obtain c cs where c: "body = c # cs" "digit_of c \<noteq> None"
    using print_nat_first [of "m div 10 ^ k"] unfolding body_def by auto
  then have nm: "c \<noteq> CHR ''-''" using minus_not_digit by auto
  show ?thesis
  proof (cases "q < 0")
    case True
    then have "parse_number (CHR ''-'' # body) = Some (JNum (Fin q), r)"
      using ip fp ep val v by (simp add: parse_number_def scale10_def)
    with True shape show ?thesis by simp
  next
    case False
    then have "parse_number (c # cs) = Some (JNum (Fin q), r)"
      using ip fp ep val v nm c(1) by (simp add: parse_number_def scale10_def)
    with False shape c(1) show ?thesis by simp
  qed
qed

lemma hex_of_hex_char: "d < 16 \<Longrightarrow> hex_of (hex_char d) = Some d"
proof -
  have "list_all (\<lambda>d. hex_of (hex_char d) = Some d) [0..<16]" by code_simp
  moreover assume "d < 16"
  ultimately show ?thesis by (simp add: list_all_iff)
qed

lemma hex4_print:
  assumes "a < 16" and "b < 16"
  shows "hex4 (CHR ''0'' # CHR ''0'' # hex_char a # hex_char b # rest) = Some (a * 16 + b)"
proof -
  have "hex_of CHR ''0'' = Some 0" by (simp add: hex_of_def)
  then show ?thesis
    using assms by (simp add: hex4_def hex_of_hex_char)
qed

lemma utf8_ascii: "(of_char c :: nat) < 0x80 \<Longrightarrow> utf8 (of_char c) = [c]"
  by (simp add: utf8_def)

lemma string_body_control:
  assumes "(of_char c :: nat) < 0x20"
    and "string_body rest = Some (t, r)"
  shows "string_body (CHR 0x5C # CHR ''u'' # CHR ''0'' # CHR ''0'' #
           hex_char ((of_char c :: nat) div 16) # hex_char ((of_char c :: nat) mod 16) # rest)
         = Some (c # t, r)"
proof -
  let ?n = "of_char c :: nat"
  have "?n div 16 < 16" using assms(1) by simp
  moreover have "?n mod 16 < 16" by simp
  ultimately have
    "hex4 (CHR ''0'' # CHR ''0'' # hex_char (?n div 16) # hex_char (?n mod 16) # rest)
       = Some (?n div 16 * 16 + ?n mod 16)"
    by (rule hex4_print)
  then have h: "hex4 (CHR ''0'' # CHR ''0'' # hex_char (?n div 16) # hex_char (?n mod 16) # rest)
       = Some ?n"
    by simp
  have u: "utf8 ?n = [c]" using assms(1) by (simp add: utf8_ascii)
  show ?thesis
    using h u assms(2) by (simp del: hex4_def)
qed

lemma string_body_escape:
  assumes "string_body rest = Some (t, r)"
  shows "string_body (escape_char c @ rest) = Some (c # t, r)"
proof -
  consider (special) "c = CHR 0x22 \<or> c = CHR 0x5C \<or> c = CHR 0x08 \<or> c = CHR 0x0C \<or>
                      c = CHR 0x0A \<or> c = CHR 0x0D \<or> c = CHR 0x09"
    | (control) "\<not> (c = CHR 0x22 \<or> c = CHR 0x5C \<or> c = CHR 0x08 \<or> c = CHR 0x0C \<or>
                      c = CHR 0x0A \<or> c = CHR 0x0D \<or> c = CHR 0x09)" "(of_char c :: nat) < 0x20"
    | (plain) "\<not> (c = CHR 0x22 \<or> c = CHR 0x5C \<or> c = CHR 0x08 \<or> c = CHR 0x0C \<or>
                      c = CHR 0x0A \<or> c = CHR 0x0D \<or> c = CHR 0x09)" "\<not> (of_char c :: nat) < 0x20"
    by blast
  then show ?thesis
  proof cases
    case special
    then show ?thesis
      using assms by (auto simp: escape_char_def unescape_def)
  next
    case control
    then have "escape_char c = [CHR 0x5C, CHR ''u'', CHR ''0'', CHR ''0'',
         hex_char ((of_char c :: nat) div 16), hex_char ((of_char c :: nat) mod 16)]"
      by (simp add: escape_char_def)
    then show ?thesis
      using string_body_control [OF control(2) assms] by (simp del: string_body.simps)
  next
    case plain
    then show ?thesis
      using assms by (simp add: escape_char_def)
  qed
qed

lemma string_body_print:
  "string_body (concat (map escape_char s) @ CHR 0x22 # r) = Some (s, r)"
  by (induction s) (simp_all add: string_body_escape del: string_body.simps, simp)

lemma quote_string_parse:
  "\<exists>cs. quote_string s @ r = CHR 0x22 # cs \<and> string_body cs = Some (s, r)"
  using string_body_print [of s r] by (simp add: quote_string_def)

lemma delim_number_end: "delim r \<Longrightarrow> number_end r"
  by (auto simp: delim_def number_end_def digit_of_def split: list.splits)

lemma delim_skip_ws: "delim r \<Longrightarrow> skip_ws r = r"
  by (auto simp: delim_def skip_ws_def is_ws_def split: list.splits)

lemma skip_ws_start: "\<not> is_ws c \<Longrightarrow> skip_ws (c # cs) = c # cs"
  by (simp add: skip_ws_def)

lemma digit_char_class:
  assumes "digit_of c \<noteq> None"
  shows "\<not> is_ws c \<and> c \<noteq> CHR '']'' \<and> c \<noteq> CHR ''}'' \<and> c \<noteq> CHR ''['' \<and> c \<noteq> CHR ''{'' \<and>
         c \<noteq> CHR 0x22 \<and> c \<noteq> CHR ''t'' \<and> c \<noteq> CHR ''f'' \<and> c \<noteq> CHR ''n''"
proof -
  have "c \<in> set ''0123456789''"
    using assms by (auto simp: digit_of_def split: if_splits)
  then show ?thesis by (auto simp: is_ws_def)
qed

lemma print_number_start:
  assumes "places q = Some k"
  shows "\<exists>c cs. print_number (Fin q) = c # cs \<and>
           \<not> is_ws c \<and> c \<noteq> CHR '']'' \<and> c \<noteq> CHR ''}'' \<and> c \<noteq> CHR ''['' \<and> c \<noteq> CHR ''{'' \<and>
           c \<noteq> CHR 0x22 \<and> c \<noteq> CHR ''t'' \<and> c \<noteq> CHR ''f'' \<and> c \<noteq> CHR ''n''"
proof (cases "q < 0")
  case True
  then show ?thesis using assms by (simp add: print_number_def Let_def is_ws_def)
next
  case False
  obtain c cs where c: "print_nat (nat \<lfloor>\<bar>q\<bar> * 10 ^ k\<rfloor> div 10 ^ k) = c # cs" "digit_of c \<noteq> None"
    using print_nat_first by blast
  then show ?thesis
    using assms False digit_char_class [OF c(2)] by (simp add: print_number_def Let_def)
qed

lemma update_fresh: "k \<notin> fst ` set al \<Longrightarrow> AList.update k v al = al @ [(k, v)]"
  by (induction al) auto

lemma fold_update_distinct:
  "distinct (map fst kvs) \<Longrightarrow> fst ` set acc \<inter> fst ` set kvs = {} \<Longrightarrow>
     foldl (\<lambda>obj (k, v). AList.update k v obj) acc kvs = acc @ kvs"
proof (induction kvs arbitrary: acc)
  case Nil
  then show ?case by simp
next
  case (Cons kv kvs)
  obtain k v where kv: "kv = (k, v)" by (cases kv)
  have "k \<notin> fst ` set acc" using Cons.prems(2) kv by auto
  then have u: "AList.update k v acc = acc @ [(k, v)]" by (rule update_fresh)
  have "foldl (\<lambda>obj (k, v). AList.update k v obj) (acc @ [(k, v)]) kvs = (acc @ [(k, v)]) @ kvs"
    using Cons.prems kv by (intro Cons.IH) auto
  then show ?case using kv u by simp
qed

lemma stringify_start:
  assumes "printable v"
  shows "\<exists>c cs. JSON_stringify v = c # cs \<and> \<not> is_ws c \<and> c \<noteq> CHR '']'' \<and> c \<noteq> CHR ''}''"
proof (cases v)
  case JNull
  then show ?thesis by (simp add: is_ws_def)
next
  case (JBool b)
  then show ?thesis by (simp add: is_ws_def)
next
  case (JNum n)
  with assms obtain q k where "n = Fin q" "places q = Some k"
    by (cases n) auto
  with JNum show ?thesis using print_number_start [of q k] by auto
next
  case (JStr s)
  then show ?thesis by (simp add: quote_string_def is_ws_def)
next
  case (JArr vs)
  then show ?thesis by (simp add: is_ws_def)
next
  case (JObj kvs)
  then show ?thesis by (simp add: is_ws_def)
qed

lemma parse_null: "delim r \<Longrightarrow> parse_value (Suc n) (''null'' @ r) = Some (JNull, r)"
  by (simp add: skip_ws_def is_ws_def literal_def)

lemma parse_true: "delim r \<Longrightarrow> parse_value (Suc n) (''true'' @ r) = Some (JBool True, r)"
  by (simp add: skip_ws_def is_ws_def literal_def)

lemma parse_false: "delim r \<Longrightarrow> parse_value (Suc n) (''false'' @ r) = Some (JBool False, r)"
  by (simp add: skip_ws_def is_ws_def literal_def)

lemma parse_string: "parse_value (Suc n) (quote_string s @ r) = Some (JStr s, r)"
proof -
  obtain cs where cs: "quote_string s @ r = CHR 0x22 # cs" "string_body cs = Some (s, r)"
    using quote_string_parse by blast
  have "skip_ws (CHR 0x22 # cs) = CHR 0x22 # cs" by (simp add: skip_ws_def is_ws_def)
  then show ?thesis using cs by (simp del: string_body.simps)
qed

lemma parse_num:
  assumes "places q = Some k" and "delim r"
  shows "parse_value (Suc n) (print_number (Fin q) @ r) = Some (JNum (Fin q), r)"
proof -
  obtain c cs where c: "print_number (Fin q) = c # cs" "\<not> is_ws c" "c \<noteq> CHR ''[''" "c \<noteq> CHR ''{''"
    "c \<noteq> CHR 0x22" "c \<noteq> CHR ''t''" "c \<noteq> CHR ''f''" "c \<noteq> CHR ''n''"
    using print_number_start [OF assms(1)] by blast
  have "parse_number ((c # cs) @ r) = Some (JNum (Fin q), r)"
    using parse_number_print [OF assms(1) delim_number_end [OF assms(2)]] c(1) by simp
  moreover have "skip_ws (c # cs @ r) = c # cs @ r" using c(2) by (rule skip_ws_start)
  ultimately show ?thesis using c by simp
qed

lemma elements_print:
  assumes "\<forall>v \<in> set vs. roundtrips v" and "vs \<noteq> []"
    and "sum_list (map (\<lambda>v. Suc (fuel v)) vs) \<le> n"
  shows "parse_elements n (commas (map JSON_stringify vs) @ CHR '']'' # r) = Some (vs, r)"
  using assms
proof (induction vs arbitrary: n)
  case Nil
  then show ?case by simp
next
  case (Cons v vs)
  from Cons.prems(3) obtain n' where n: "n = Suc n'" "fuel v \<le> n'"
    "sum_list (map (\<lambda>v. Suc (fuel v)) vs) \<le> n'"
    by (cases n) auto
  have rt: "roundtrips v" using Cons.prems(1) by simp
  show ?case
  proof (cases vs)
    case Nil
    have "parse_value n' (JSON_stringify v @ CHR '']'' # r) = Some (v, CHR '']'' # r)"
      using rt n(2) by (simp add: roundtrips_def delim_def)
    then show ?thesis using Nil n(1) by (simp add: skip_ws_def is_ws_def)
  next
    case (Cons w ws)
    have "parse_value n' (JSON_stringify v @ CHR '','' # commas (map JSON_stringify vs) @ CHR '']'' # r)
            = Some (v, CHR '','' # commas (map JSON_stringify vs) @ CHR '']'' # r)"
      using rt n(2) by (simp add: roundtrips_def delim_def)
    moreover have "parse_elements n' (commas (map JSON_stringify vs) @ CHR '']'' # r) = Some (vs, r)"
      using Cons.prems(1) Cons n(3) by (intro Cons.IH) auto
    ultimately show ?thesis using Cons n(1) by (simp add: skip_ws_def is_ws_def)
  qed
qed

lemma member_head:
  assumes "roundtrips v" and "fuel v \<le> n" and "delim rest"
  shows "\<exists>qs. member_text (k, v) @ rest = CHR 0x22 # qs \<and>
           string_body qs = Some (k, CHR '':'' # JSON_stringify v @ rest) \<and>
           parse_value n (JSON_stringify v @ rest) = Some (v, rest)"
proof -
  obtain qs where "quote_string k @ (CHR '':'' # JSON_stringify v @ rest) = CHR 0x22 # qs"
    "string_body qs = Some (k, CHR '':'' # JSON_stringify v @ rest)"
    using quote_string_parse by blast
  moreover have "parse_value n (JSON_stringify v @ rest) = Some (v, rest)"
    using assms by (simp add: roundtrips_def)
  ultimately show ?thesis by (simp add: member_text_def)
qed

lemma members_print:
  assumes "\<forall>kv \<in> set kvs. roundtrips (snd kv)" and "kvs \<noteq> []"
    and "sum_list (map (\<lambda>kv. Suc (fuel (snd kv))) kvs) \<le> n"
  shows "parse_members n (commas (map member_text kvs) @ CHR ''}'' # r) = Some (kvs, r)"
  using assms
proof (induction kvs arbitrary: n)
  case Nil
  then show ?case by simp
next
  case (Cons kv kvs)
  obtain k v where kv: "kv = (k, v)" by (cases kv)
  from Cons.prems(3) kv obtain n' where n: "n = Suc n'" "fuel v \<le> n'"
    "sum_list (map (\<lambda>kv. Suc (fuel (snd kv))) kvs) \<le> n'"
    by (cases n) auto
  have rt: "roundtrips v" using Cons.prems(1) kv by simp
  show ?case
  proof (cases kvs)
    case Nil
    obtain qs where qs: "member_text (k, v) @ CHR ''}'' # r = CHR 0x22 # qs"
      "string_body qs = Some (k, CHR '':'' # JSON_stringify v @ CHR ''}'' # r)"
      "parse_value n' (JSON_stringify v @ CHR ''}'' # r) = Some (v, CHR ''}'' # r)"
      using member_head [OF rt n(2), of "CHR ''}'' # r" k] by (auto simp: delim_def)
    then show ?thesis
      using Nil n(1) kv
      by (simp add: skip_ws_def is_ws_def del: string_body.simps parse_value.simps)
  next
    case (Cons kw kws)
    let ?rest = "CHR '','' # commas (map member_text kvs) @ CHR ''}'' # r"
    obtain qs where qs: "member_text (k, v) @ ?rest = CHR 0x22 # qs"
      "string_body qs = Some (k, CHR '':'' # JSON_stringify v @ ?rest)"
      "parse_value n' (JSON_stringify v @ ?rest) = Some (v, ?rest)"
      using member_head [OF rt n(2), of ?rest k] by (auto simp: delim_def)
    moreover have "parse_members n' (commas (map member_text kvs) @ CHR ''}'' # r) = Some (kvs, r)"
      using Cons.prems(1) Cons n(3) by (intro Cons.IH) auto
    ultimately show ?thesis
      using Cons n(1) kv
      by (simp add: skip_ws_def is_ws_def del: string_body.simps parse_value.simps)
  qed
qed

lemma commas_start:
  assumes "xs \<noteq> []" and "hd xs = c # cs"
  shows "\<exists>cs'. commas xs = c # cs'"
  using assms by (cases xs rule: commas.cases) auto

lemma stringify_members: "JSON_stringify (JObj kvs) = CHR ''{'' # commas (map member_text kvs) @ ''}''"
  by (simp add: member_text_def [abs_def])

lemma array_print:
  assumes "\<forall>v \<in> set vs. printable v \<and> roundtrips v" and "delim r" and "fuel (JArr vs) \<le> n"
  shows "parse_value n (JSON_stringify (JArr vs) @ r) = Some (JArr vs, r)"
proof -
  from assms(3) obtain n' where n: "n = Suc n'" "sum_list (map (\<lambda>v. Suc (fuel v)) vs) \<le> n'"
    by (cases n) auto
  have open_ws: "skip_ws (CHR ''['' # s) = CHR ''['' # s" for s
    by (simp add: skip_ws_def is_ws_def)
  show ?thesis
  proof (cases "vs = []")
    case True
    then show ?thesis using n(1) by (simp add: skip_ws_def is_ws_def)
  next
    case False
    then obtain v where v: "hd vs = v" "v \<in> set vs" by (cases vs) auto
    then obtain c cs where c: "JSON_stringify v = c # cs" "\<not> is_ws c" "c \<noteq> CHR '']''"
      using assms(1) stringify_start [of v] by blast
    then obtain cs' where cs': "commas (map JSON_stringify vs) = c # cs'"
      using commas_start [of "map JSON_stringify vs" c cs] False v(1) by (auto simp: hd_map)
    have e: "parse_elements n' (commas (map JSON_stringify vs) @ CHR '']'' # r) = Some (vs, r)"
      using assms(1) False n(2) by (intro elements_print) auto
    have "skip_ws (c # cs' @ CHR '']'' # r) = c # cs' @ CHR '']'' # r"
      using c(2) by (rule skip_ws_start)
    then show ?thesis
      using n(1) e cs' c(3) open_ws
      by (simp del: parse_elements.simps)
  qed
qed

lemma object_print:
  assumes "\<forall>kv \<in> set kvs. roundtrips (snd kv)" and "distinct (map fst kvs)"
    and "delim r" and "fuel (JObj kvs) \<le> n"
  shows "parse_value n (JSON_stringify (JObj kvs) @ r) = Some (JObj kvs, r)"
proof -
  from assms(4) obtain n' where n: "n = Suc n'"
    "sum_list (map (\<lambda>kv. Suc (fuel (snd kv))) kvs) \<le> n'"
    by (cases n) auto
  have open_ws: "skip_ws (CHR ''{'' # s) = CHR ''{'' # s" for s
    by (simp add: skip_ws_def is_ws_def)
  show ?thesis
  proof (cases "kvs = []")
    case True
    then show ?thesis using n(1) by (simp add: skip_ws_def is_ws_def)
  next
    case False
    then obtain kv where kv: "hd kvs = kv" by simp
    have "member_text kv = CHR 0x22 # concat (map escape_char (fst kv)) @ [CHR 0x22] @
             '':'' @ JSON_stringify (snd kv)"
      by (simp add: member_text_def quote_string_def)
    then obtain cs' where cs': "commas (map member_text kvs) = CHR 0x22 # cs'"
      using commas_start [of "map member_text kvs" "CHR 0x22"] False kv by (auto simp: hd_map)
    have m: "parse_members n' (commas (map member_text kvs) @ CHR ''}'' # r) = Some (kvs, r)"
      using assms(1) False n(2) by (intro members_print) auto
    have f: "foldl (\<lambda>obj (k, v). AList.update k v obj) [] kvs = kvs"
      using fold_update_distinct [OF assms(2), of "[]"] by simp
    have "skip_ws (CHR 0x22 # cs' @ CHR ''}'' # r) = CHR 0x22 # cs' @ CHR ''}'' # r"
      by (simp add: skip_ws_def is_ws_def)
    then show ?thesis
      using n(1) m cs' f open_ws
      by (simp add: stringify_members del: parse_members.simps JSON_stringify.simps)
  qed
qed

lemma printable_roundtrips: "printable v \<Longrightarrow> roundtrips v"
proof (induction v)
  case JNull
  show ?case unfolding roundtrips_def
  proof (intro allI impI)
    fix n r assume "delim r" "fuel JNull \<le> n"
    then obtain n' where "n = Suc n'" by (cases n) auto
    then show "parse_value n (JSON_stringify JNull @ r) = Some (JNull, r)"
      using parse_null [OF \<open>delim r\<close>] by (simp del: parse_value.simps)
  qed
next
  case (JBool b)
  show ?case unfolding roundtrips_def
  proof (intro allI impI)
    fix n r assume "delim r" "fuel (JBool b) \<le> n"
    then obtain n' where "n = Suc n'" by (cases n) auto
    then show "parse_value n (JSON_stringify (JBool b) @ r) = Some (JBool b, r)"
      using parse_true [OF \<open>delim r\<close>] parse_false [OF \<open>delim r\<close>]
      by (cases b) (simp_all del: parse_value.simps)
  qed
next
  case (JNum x)
  then obtain q k where q: "x = Fin q" "places q = Some k" by (cases x) auto
  show ?case unfolding roundtrips_def
  proof (intro allI impI)
    fix n r assume "delim r" "fuel (JNum x) \<le> n"
    then obtain n' where "n = Suc n'" by (cases n) auto
    then show "parse_value n (JSON_stringify (JNum x) @ r) = Some (JNum x, r)"
      using parse_num [OF q(2) \<open>delim r\<close>] q(1) by (simp del: parse_value.simps)
  qed
next
  case (JStr s)
  show ?case unfolding roundtrips_def
  proof (intro allI impI)
    fix n r assume "delim r" "fuel (JStr s) \<le> n"
    then obtain n' where "n = Suc n'" by (cases n) auto
    then show "parse_value n (JSON_stringify (JStr s) @ r) = Some (JStr s, r)"
      using parse_string by (simp del: parse_value.simps)
  qed
next
  case (JArr vs)
  then have a: "\<forall>v \<in> set vs. printable v \<and> roundtrips v" by (auto simp: list_all_iff)
  show ?case unfolding roundtrips_def
  proof (intro allI impI)
    fix n r assume "delim r" "fuel (JArr vs) \<le> n"
    with a show "parse_value n (JSON_stringify (JArr vs) @ r) = Some (JArr vs, r)"
      by (rule array_print)
  qed
next
  case (JObj kvs)
  then have a: "\<forall>kv \<in> set kvs. roundtrips (snd kv)"
    by (auto simp: list_all_iff snds.simps)
  have d: "distinct (map fst kvs)" using JObj.prems by simp
  show ?case unfolding roundtrips_def
  proof (intro allI impI)
    fix n r assume "delim r" "fuel (JObj kvs) \<le> n"
    with a d show "parse_value n (JSON_stringify (JObj kvs) @ r) = Some (JObj kvs, r)"
      by (rule object_print)
  qed
qed

lemma length_commas: "length (commas xs) = sum_list (map length xs) + (length xs - 1)"
  by (induction xs rule: commas.induct) auto

lemma print_number_nonempty: "print_number x \<noteq> []"
proof (cases x)
  case (Fin q)
  show ?thesis
  proof (cases "places q")
    case None
    with Fin show ?thesis by (simp add: print_number_def)
  next
    case (Some k)
    with Fin show ?thesis using print_number_start [OF Some] by auto
  qed
qed (simp_all add: print_number_def)

lemma fuel_le_length: "fuel v \<le> length (JSON_stringify v)"
proof (induction v)
  case (JNum x)
  then show ?case using print_number_nonempty [of x] by (cases "print_number x") auto
next
  case (JStr s)
  then show ?case by (simp add: quote_string_def)
next
  case (JArr vs)
  then have "sum_list (map fuel vs) \<le> sum_list (map (\<lambda>v. length (JSON_stringify v)) vs)"
    by (intro sum_list_mono) auto
  then have "sum_list (map (\<lambda>v. Suc (fuel v)) vs)
               \<le> sum_list (map (\<lambda>v. length (JSON_stringify v)) vs) + length vs"
    by (simp add: sum_list_Suc)
  then show ?case by (cases vs) (simp_all add: length_commas comp_def)
next
  case (JObj kvs)
  have "fuel (snd kv) \<le> length (member_text kv)" if "kv \<in> set kvs" for kv
    using JObj [of kv "snd kv"] that
    by (cases kv) (auto simp: member_text_def snds.simps intro: le_trans)
  then have "sum_list (map (\<lambda>kv. fuel (snd kv)) kvs) \<le> sum_list (map (\<lambda>kv. length (member_text kv)) kvs)"
    by (intro sum_list_mono) auto
  then have "sum_list (map (\<lambda>kv. Suc (fuel (snd kv))) kvs)
               \<le> sum_list (map (\<lambda>kv. length (member_text kv)) kvs) + length kvs"
    by (simp add: sum_list_Suc)
  then show ?case
    by (cases kvs) (simp_all add: stringify_members length_commas comp_def del: JSON_stringify.simps)
qed simp_all

theorem JSON_parse_stringify:
  assumes "printable v"
  shows "JSON_parse (JSON_stringify v) = Some v"
proof -
  have "roundtrips v" using assms by (rule printable_roundtrips)
  moreover have "delim []" by (simp add: delim_def)
  moreover have "fuel v \<le> 2 * length (JSON_stringify v) + 2"
    using fuel_le_length [of v] by simp
  ultimately have "parse_value (2 * length (JSON_stringify v) + 2) (JSON_stringify v @ [])
                     = Some (v, [])"
    unfolding roundtrips_def by blast
  then show ?thesis by (simp add: JSON_parse_def skip_ws_def del: parse_value.simps)
qed

lemma int_ge1_decimal: "int_ge1 x \<Longrightarrow> decimal x"
proof (cases x)
  case (Fin a)
  assume "int_ge1 x"
  with Fin have "of_int \<lfloor>a\<rfloor> = a" by simp
  then have "dec_places f a = Some 0" for f by (cases f) simp_all
  with Fin show ?thesis by (simp add: decimal_def places_def)
qed simp_all

lemma int_ge1_sanitized:
  assumes "int_ge1 x"
  shows "Math_max (Fin 1) (Math_trunc (js_or x (Fin 1))) = x"
proof (cases x)
  case (Fin a)
  with assms have a: "of_int \<lfloor>a\<rfloor> = a" "1 \<le> a" by simp_all
  then have "\<lceil>a\<rceil> = \<lfloor>a\<rfloor>" by (metis ceiling_of_int floor_of_int)
  with a Fin show ?thesis by (simp add: js_or_def max_def)
qed (use assms in simp_all)

lemma map_of_opt_prop:
  "map_of (opt_prop k f x) k' = (if k' = k then map_option f x else None)"
  by (cases x) (auto simp: opt_prop_def)

lemma fst_opt_prop: "map fst (opt_prop k f x) = (case x of None \<Rightarrow> [] | Some v \<Rightarrow> [k])"
  by (cases x) (auto simp: opt_prop_def)

lemma to_json_lookup:
  assumes "to_json it = JObj ps"
  shows "map_of ps ''id'' = Some (JStr (id_field it))"
    and "map_of ps ''name'' = Some (JStr (name it))"
    and "map_of ps ''price'' = Some (JNum (price it))"
    and "map_of ps ''quantity'' = Some (JNum (quantity it))"
    and "map_of ps ''image'' = map_option JStr (image_field it)"
    and "map_of ps ''category'' = map_option JStr (category it)"
    and "map_of ps ''description'' = map_option JStr (description it)"
    and "map_of ps ''variation'' = map_option JStr (variation it)"
    and "map_of ps ''inStock'' = map_option JBool (inStock it)"
    and "map_of ps ''originalPrice'' = map_option JNum (originalPrice it)"
    and "map_of ps ''discount'' = map_option JNum (discount it)"
  using assms
  by (auto simp: to_json_def map_add_def map_of_opt_prop split: option.splits)

lemma opt_lookup:
  "map_of ps k = map_option JStr x \<Longrightarrow> opt_str ps k = Some x"
  "map_of ps k = map_option JBool b \<Longrightarrow> opt_bool ps k = Some b"
  "map_of ps k = map_option JNum n \<Longrightarrow> opt_num ps k = Some n"
proof -
  show "map_of ps k = map_option JStr x \<Longrightarrow> opt_str ps k = Some x"
    by (cases x) (simp_all add: opt_str_def)
  show "map_of ps k = map_option JBool b \<Longrightarrow> opt_bool ps k = Some b"
    by (cases b) (simp_all add: opt_bool_def)
  show "map_of ps k = map_option JNum n \<Longrightarrow> opt_num ps k = Some n"
    by (cases n) (simp_all add: opt_num_def)
qed

lemma as_CartItem_to_json:
  assumes "to_json it = JObj ps"
  shows "as_CartItem ps q = Some (it\<lparr>quantity := q\<rparr>)"
  using to_json_lookup [OF assms]
  by (simp add: as_CartItem_def opt_lookup)

lemma safe_entry_to_json:
  assumes "int_ge1 (quantity it)"
  shows "safe_entry (to_json it) = Done it"
proof -
  obtain ps where ps: "to_json it = JObj ps" by (simp add: to_json_def)
  have q: "map_of ps ''quantity'' = Some (JNum (quantity it))"
    using ps by (rule to_json_lookup)
  have "as_CartItem ps (quantity it) = Some (it\<lparr>quantity := quantity it\<rparr>)"
    using ps by (rule as_CartItem_to_json)
  then show ?thesis
    using ps q int_ge1_sanitized [OF assms] by simp
qed

lemma safe_entries_to_json:
  "list_all (\<lambda>it. int_ge1 (quantity it)) xs \<Longrightarrow> safe_entries (map to_json xs) = Done xs"
  by (induction xs) (simp_all add: safe_entry_to_json)

lemma opt_prop_printable:
  "(\<And>v. x = Some v \<Longrightarrow> printable (f v)) \<Longrightarrow>
     list_all (\<lambda>kv. printable (snd kv)) (opt_prop k f x)"
  by (cases x) (auto simp: opt_prop_def)

lemma to_json_keys_distinct:
  assumes "to_json it = JObj ps"
  shows "distinct (map fst ps)"
  using assms
  by (auto simp: to_json_def fst_opt_prop split: option.splits)

lemma to_json_values_printable:
  assumes "storable it" and "to_json it = JObj ps"
  shows "list_all (\<lambda>kv. printable (snd kv)) ps"
proof -
  have "printable (JNum x)" if "decimal x" for x
    using that by (cases x) (auto simp: decimal_def)
  moreover have "decimal (quantity it)" using assms(1) by (simp add: storable_def int_ge1_decimal)
  moreover have "decimal (price it)" using assms(1) by (simp add: storable_def)
  moreover have "decimal v" if "originalPrice it = Some v" for v
    using assms(1) that by (simp add: storable_def opt_decimal_def)
  moreover have "decimal v" if "discount it = Some v" for v
    using assms(1) that by (simp add: storable_def opt_decimal_def)
  ultimately show ?thesis
    using assms(2) by (auto simp: to_json_def intro!: opt_prop_printable)
qed

lemma to_json_printable: "storable it \<Longrightarrow> printable (to_json it)"
proof -
  assume s: "storable it"
  obtain ps where ps: "to_json it = JObj ps" by (simp add: to_json_def)
  then show ?thesis
    using to_json_keys_distinct [OF ps] to_json_values_printable [OF s ps] by simp
qed

subsection \<open>Setting a quantity below one\<close>

text \<open>
  C1 as stated fails: \<open>updateQuantity\<close> asked for quantity 0 on a line that holds 5 stores
  1, because the helper clamps the request to \<open>Math.max(1, Math.trunc(quantity))\<close> before
  it dispatches, and the reducer's guard \<open>quantity < 1\<close> never sees a value below one.
\<close>

theorem updateQuantity_below_one_counterexample:
  "js_lt (Fin 0) (Fin 1) \<and>
   map quantity (items \<lparr>items = [line ''a'' (Fin 100) (Fin 5)]\<rparr>) = [Fin 5] \<and>
   map quantity (items (updateQuantity \<lparr>items = [line ''a'' (Fin 100) (Fin 5)]\<rparr> ''a'' (Fin 0)))
     = [Fin 1]"
  by (simp add: updateQuantity_def line_def)

text \<open>
  C1, amended: for every snapshot and every requested quantity \<open>q < 1\<close>, \<open>updateQuantity\<close>
  sets the quantity of the line with that id to 1; the line is not removed, it keeps its
  place and its other fields, and every other line is unchanged.
\<close>

theorem updateQuantity_below_one_clamps:
  assumes "js_lt q (Fin 1)"
  shows "updateQuantity state ident q =
           \<lparr>items = map (\<lambda>i. if id_field i = ident then i\<lparr>quantity := Fin 1\<rparr> else i)
                         (items state)\<rparr>"
  using assms by (simp add: updateQuantity_def clamp_below_one)

theorem updateQuantity_below_one_clamps_witness:
  "js_lt (Fin (- 3)) (Fin 1) \<and>
   updateQuantity \<lparr>items = [line ''a'' (Fin 100) (Fin 5), line ''b'' (Fin 50) (Fin 2)]\<rparr>
       ''a'' (Fin (- 3))
     = \<lparr>items = [line ''a'' (Fin 100) (Fin 1), line ''b'' (Fin 50) (Fin 2)]\<rparr>"
proof -
  have h: "js_lt (Fin (- 3)) (Fin 1)" by simp
  show ?thesis
    using h updateQuantity_below_one_clamps [OF h, of
        "\<lparr>items = [line ''a'' (Fin 100) (Fin 5), line ''b'' (Fin 50) (Fin 2)]\<rparr>" "''a''"]
    by (simp add: line_def)
qed

subsection \<open>Quantities that are not whole numbers from one on\<close>

text \<open>
  C2: \<open>updateQuantity\<close> with \<open>NaN\<close> stores \<open>NaN\<close>: \<open>Math.max(1, Math.trunc(NaN))\<close> is
  \<open>NaN\<close>, and \<open>NaN < 1\<close> is false, so the reducer writes it. \<open>addToCart\<close> maps the same
  argument to 1 through \<open>quantity || 1\<close>. A decrease by 10 of a quantity 2 gives 1.
\<close>

theorem updateQuantity_NaN_is_stored:
  "updateQuantity \<lparr>items = [line ''a'' (Fin 100) (Fin 2)]\<rparr> ''a'' NaN
     = \<lparr>items = [line ''a'' (Fin 100) NaN]\<rparr> \<and>
   \<not> int_ge1 NaN \<and>
   addToCart initialState (line ''a'' (Fin 100) NaN) = \<lparr>items = [line ''a'' (Fin 100) (Fin 1)]\<rparr> \<and>
   decreaseQty \<lparr>items = [line ''a'' (Fin 100) (Fin 2)]\<rparr> ''a'' (Some (Fin 10))
     = \<lparr>items = [line ''a'' (Fin 100) (Fin 1)]\<rparr>"
  by (simp add: updateQuantity_def addToCart_def decreaseQty_def initialState_def line_def
        js_or_def delta_default_def minus_jsnum_def js_sub_def)

subsection \<open>Uniqueness of ids\<close>

text \<open>
  C3 as stated fails: hydration installs the stored array as it is. A durable copy with
  two lines of id \<open>a\<close> gives a snapshot with two lines of id \<open>a\<close>.
\<close>

theorem hydrate_duplicate_ids_counterexample:
  "after initialState (hydrate True (ReadValue (Some stored_duplicate)))
     = Some \<lparr>items = [line ''a'' (Fin 100) (Fin 1), line ''a'' (Fin 100) (Fin 2)]\<rparr> \<and>
   \<not> distinct (map id_field [line ''a'' (Fin 100) (Fin 1), line ''a'' (Fin 100) (Fin 2)])"
proof -
  have "hydrate True (ReadValue (Some stored_duplicate))
          = Dispatch (INIT [line ''a'' (Fin 100) (Fin 1), line ''a'' (Fin 100) (Fin 2)])"
    unfolding stored_duplicate_def by code_simp
  then show ?thesis by (simp add: after_def line_def)
qed

text \<open>
  C3, amended: add, remove, clear, setQuantity, increaseQuantity and decreaseQuantity
  keep the ids of a snapshot unique. Hydration and the adoption of an external payload
  install the payload's lines in order under the ids the payload holds, so the ids of
  the resulting snapshot are unique exactly when the payload's are.
\<close>

theorem ids_unique_preserved:
  "(distinct (map id_field (items state)) \<longrightarrow>
      distinct (map id_field (items (addToCart state item))) \<and>
      distinct (map id_field (items (removeFromCart state ident))) \<and>
      distinct (map id_field (items (updateQuantity state ident q))) \<and>
      distinct (map id_field (items (increaseQty state ident d))) \<and>
      distinct (map id_field (items (decreaseQty state ident d)))) \<and>
   distinct (map id_field (items (clearCart state))) \<and>
   (raw \<noteq> [] \<and> JSON_parse raw = Some (JArr parsed) \<and> safe_entries parsed = Done safe \<longrightarrow>
      after state (hydrate True (ReadValue (Some raw))) = Some \<lparr>items = safe\<rparr> \<and>
      after state (onStorage (Some STORAGE_KEY) (Some raw)) = Some \<lparr>items = safe\<rparr> \<and>
      map (\<lambda>it. Some (JStr (id_field it))) safe = payload_ids parsed \<and>
      (distinct (map id_field safe) \<longleftrightarrow> distinct (payload_ids parsed)))"
proof (intro conjI impI)
  assume d: "distinct (map id_field (items state))"
  show "distinct (map id_field (items (addToCart state item)))"
    using d by (rule addToCart_distinct)
  show "distinct (map id_field (items (removeFromCart state ident)))"
    using d by (simp add: removeFromCart_def distinct_map_filter)
  show "distinct (map id_field (items (updateQuantity state ident q)))"
    using d by (simp add: updateQuantity_def Let_def clamp_not_below_one ids_kept)
  show "distinct (map id_field (items (increaseQty state ident d)))"
    using d by (simp add: increaseQty_def Let_def ids_kept)
  show "distinct (map id_field (items (decreaseQty state ident d)))"
    using d by (simp add: decreaseQty_def Let_def ids_kept)
next
  show "distinct (map id_field (items (clearCart state)))"
    by (simp add: clearCart_def)
next
  assume a: "raw \<noteq> [] \<and> JSON_parse raw = Some (JArr parsed) \<and> safe_entries parsed = Done safe"
  then show "after state (hydrate True (ReadValue (Some raw))) = Some \<lparr>items = safe\<rparr>"
    by (simp add: hydrate_def after_def)
  from a show "after state (onStorage (Some STORAGE_KEY) (Some raw)) = Some \<lparr>items = safe\<rparr>"
    by (simp add: onStorage_def after_def)
  from a have ids: "map (\<lambda>it. Some (JStr (id_field it))) safe = payload_ids parsed"
    by (simp add: safe_entries_ids)
  then show "map (\<lambda>it. Some (JStr (id_field it))) safe = payload_ids parsed" .
  have "inj_on (\<lambda>x. Some (JStr x)) (set (map id_field safe))" by (simp add: inj_on_def)
  then have "distinct (map (\<lambda>x. Some (JStr x)) (map id_field safe)) = distinct (map id_field safe)"
    by (simp add: distinct_map del: map_map)
  with ids show "distinct (map id_field safe) \<longleftrightarrow> distinct (payload_ids parsed)"
    by (simp add: comp_def)
qed

theorem ids_unique_preserved_witness:
  "distinct (map id_field (items \<lparr>items = [line ''a'' (Fin 100) (Fin 2), line ''b'' (Fin 50) (Fin 1)]\<rparr>)) \<and>
   distinct (map id_field (items (addToCart
      \<lparr>items = [line ''a'' (Fin 100) (Fin 2), line ''b'' (Fin 50) (Fin 1)]\<rparr> (line ''b'' (Fin 50) (Fin 4))))) \<and>
   distinct (map id_field (items (removeFromCart
      \<lparr>items = [line ''a'' (Fin 100) (Fin 2), line ''b'' (Fin 50) (Fin 1)]\<rparr> ''a''))) \<and>
   JSON_parse stored_fraction = Some (JArr
     [JObj [(''id'', JStr ''a''), (''name'', JStr ''item''), (''price'', JNum (Fin 100)),
            (''quantity'', JNum (Fin (27 / 10)))],
      JObj [(''id'', JStr ''b''), (''name'', JStr ''item''), (''price'', JNum (Fin 50)),
            (''quantity'', JNum (Fin 0))]]) \<and>
   after \<lparr>items = [line ''a'' (Fin 100) (Fin 2), line ''b'' (Fin 50) (Fin 1)]\<rparr>
       (hydrate True (ReadValue (Some stored_fraction)))
     = Some \<lparr>items = [line ''a'' (Fin 100) (Fin 2), line ''b'' (Fin 50) (Fin 1)]\<rparr> \<and>
   distinct (map id_field [line ''a'' (Fin 100) (Fin 2), line ''b'' (Fin 50) (Fin 1)])"
proof -
  let ?s = "\<lparr>items = [line ''a'' (Fin 100) (Fin 2), line ''b'' (Fin 50) (Fin 1)]\<rparr>"
  let ?parsed = "[JObj [(''id'', JStr ''a''), (''name'', JStr ''item''), (''price'', JNum (Fin 100)),
            (''quantity'', JNum (Fin (27 / 10)))],
      JObj [(''id'', JStr ''b''), (''name'', JStr ''item''), (''price'', JNum (Fin 50)),
            (''quantity'', JNum (Fin 0))]]"
  let ?safe = "[line ''a'' (Fin 100) (Fin 2), line ''b'' (Fin 50) (Fin 1)]"
  have d: "distinct (map id_field (items ?s))" by (simp add: line_def)
  have p: "JSON_parse stored_fraction = Some (JArr ?parsed)"
    unfolding stored_fraction_def by code_simp
  have e: "safe_entries ?parsed = Done ?safe" by code_simp
  have n: "stored_fraction \<noteq> []" by (simp add: stored_fraction_def)
  have pd: "distinct (payload_ids ?parsed)" by (simp add: payload_ids_def)
  note t = ids_unique_preserved [of ?s "line ''b'' (Fin 50) (Fin 4)" "''a''" "Fin 1" None
      stored_fraction ?parsed ?safe]
  from t d have "distinct (map id_field (items (addToCart ?s (line ''b'' (Fin 50) (Fin 4)))))"
    and "distinct (map id_field (items (removeFromCart ?s ''a'')))"
    by blast+
  moreover from t n p e
  have "after ?s (hydrate True (ReadValue (Some stored_fraction))) = Some \<lparr>items = ?safe\<rparr>"
    and "distinct (map id_field ?safe) \<longleftrightarrow> distinct (payload_ids ?parsed)"
    by blast+
  ultimately show ?thesis using d p pd by blast
qed

subsection \<open>Cross-tab synchronisation\<close>




subsection \<open>Repeated adds of one id\<close>



subsection \<open>The total\<close>


subsection \<open>Hydration from a corrupt durable copy\<close>

text \<open>
  C7: when the read of the durable copy throws, or the copy is absent or empty, or does
  not parse as JSON, or parses to something that is not an array, or to an array with a
  \<open>null\<close> element, hydration dispatches \<open>INIT []\<close>: the snapshot is empty afterwards and
  no exception leaves the effect. Outside a browser nothing is dispatched and the
  initial snapshot, which is empty, stays. The text \<open>not-json\<close> is such a copy.
\<close>

theorem hydrate_corrupt_resets:
  assumes "rd = ReadThrows \<or> rd = ReadValue None \<or> rd = ReadValue (Some []) \<or>
           (\<exists>raw. rd = ReadValue (Some raw) \<and>
              (JSON_parse raw = None \<or>
               (\<exists>v. JSON_parse raw = Some v \<and> (\<forall>vs. v \<noteq> JArr vs)) \<or>
               (\<exists>vs. JSON_parse raw = Some (JArr vs) \<and> JNull \<in> set vs)))"
  shows "hydrate True rd = Dispatch (INIT []) \<and>
         after state (hydrate True rd) = Some \<lparr>items = []\<rparr> \<and>
         after initialState (hydrate False rd) = Some \<lparr>items = []\<rparr> \<and>
         after state (hydrate True (ReadValue (Some ''not-json''))) = Some \<lparr>items = []\<rparr>"
proof -
  from assms consider
      (thrown) "rd = ReadThrows"
    | (absent) "rd = ReadValue None"
    | (empty) "rd = ReadValue (Some [])"
    | (unparsable) raw where "rd = ReadValue (Some raw)" "JSON_parse raw = None"
    | (no_array) raw v where "rd = ReadValue (Some raw)" "JSON_parse raw = Some v"
        "\<forall>vs. v \<noteq> JArr vs"
    | (null_entry) raw vs where "rd = ReadValue (Some raw)" "JSON_parse raw = Some (JArr vs)"
        "JNull \<in> set vs"
    by blast
  then have h: "hydrate True rd = Dispatch (INIT [])"
  proof cases
    case thrown
    then show ?thesis by (simp add: hydrate_def)
  next
    case absent
    then show ?thesis by (simp add: hydrate_def)
  next
    case empty
    then show ?thesis by (simp add: hydrate_def)
  next
    case unparsable
    then show ?thesis by (simp add: hydrate_def)
  next
    case no_array
    then show ?thesis by (cases v) (simp_all add: hydrate_def)
  next
    case null_entry
    then show ?thesis by (simp add: hydrate_def safe_entries_null)
  qed
  have n: "JSON_parse ''not-json'' = None" by code_simp
  have "hydrate True (ReadValue (Some ''not-json'')) = Dispatch (INIT [])"
    using n by (simp add: hydrate_def)
  moreover have "hydrate False rd = NoDispatch" by (simp add: hydrate_def)
  ultimately show ?thesis using h by (simp add: after_def initialState_def)
qed

theorem hydrate_corrupt_resets_witness:
  "JSON_parse stored_object = Some (JObj [(''a'', JNum (Fin 1))]) \<and>
   hydrate True (ReadValue (Some stored_object)) = Dispatch (INIT []) \<and>
   after \<lparr>items = [line ''c'' (Fin 1) (Fin 9)]\<rparr> (hydrate True (ReadValue (Some stored_object)))
     = Some \<lparr>items = []\<rparr>"
proof -
  have p: "JSON_parse stored_object = Some (JObj [(''a'', JNum (Fin 1))])"
    unfolding stored_object_def by code_simp
  then have "ReadValue (Some stored_object) = ReadThrows \<or>
           ReadValue (Some stored_object) = ReadValue None \<or>
           ReadValue (Some stored_object) = ReadValue (Some []) \<or>
           (\<exists>raw. ReadValue (Some stored_object) = ReadValue (Some raw) \<and>
              (JSON_parse raw = None \<or>
               (\<exists>v. JSON_parse raw = Some v \<and> (\<forall>vs. v \<noteq> JArr vs)) \<or>
               (\<exists>vs. JSON_parse raw = Some (JArr vs) \<and> JNull \<in> set vs)))"
    by blast
  from hydrate_corrupt_resets [OF this, of "\<lparr>items = [line ''c'' (Fin 1) (Fin 9)]\<rparr>"]
  have "hydrate True (ReadValue (Some stored_object)) = Dispatch (INIT [])"
    and "after \<lparr>items = [line ''c'' (Fin 1) (Fin 9)]\<rparr> (hydrate True (ReadValue (Some stored_object)))
           = Some \<lparr>items = []\<rparr>"
    by (rule conjunct1, rule conjunct2 [THEN conjunct1])
  with p show ?thesis by (intro conjI)
qed

subsection \<open>Writing the snapshot and hydrating from it\<close>

text \<open>
  C8: for every snapshot whose lines hold whole quantities from one on and finite
  numbers, hydrating from the text that the persistence effect writes dispatches \<open>INIT\<close>
  with the very same lines: the same ids, quantities, prices and other fields in the
  same order. The sanitisation on read changes nothing on such lines.
\<close>

theorem persist_hydrate_roundtrip:
  assumes "list_all storable (items state)"
  shows "hydrate True (ReadValue (Some (persist state))) = Dispatch (INIT (items state)) \<and>
         after before (hydrate True (ReadValue (Some (persist state)))) = Some state"
proof -
  have "printable (JArr (map to_json (items state)))"
    using assms by (auto simp: list_all_iff to_json_printable)
  then have p: "JSON_parse (persist state) = Some (JArr (map to_json (items state)))"
    unfolding persist_def by (rule JSON_parse_stringify)
  have "list_all (\<lambda>it. int_ge1 (quantity it)) (items state)"
    using assms by (auto simp: list_all_iff storable_def)
  then have e: "safe_entries (map to_json (items state)) = Done (items state)"
    by (rule safe_entries_to_json)
  have n: "persist state \<noteq> []" by (simp add: persist_def)
  have "hydrate True (ReadValue (Some (persist state))) = Dispatch (INIT (items state))"
    using p e n by (simp add: hydrate_def)
  then show ?thesis by (simp add: after_def)
qed

theorem persist_hydrate_roundtrip_witness:
  "list_all storable [line ''a'' (Fin (1999 / 100)) (Fin 2), line ''b'' (Fin 50) (Fin 1)] \<and>
   persist \<lparr>items = [line ''a'' (Fin (1999 / 100)) (Fin 2), line ''b'' (Fin 50) (Fin 1)]\<rparr>
     = stored_pair \<and>
   hydrate True (ReadValue (Some stored_pair))
     = Dispatch (INIT [line ''a'' (Fin (1999 / 100)) (Fin 2), line ''b'' (Fin 50) (Fin 1)])"
proof -
  let ?s = "\<lparr>items = [line ''a'' (Fin (1999 / 100)) (Fin 2), line ''b'' (Fin 50) (Fin 1)]\<rparr>"
  have h: "list_all storable (items ?s)" by code_simp
  have p: "persist ?s = stored_pair" unfolding stored_pair_def by code_simp
  from persist_hydrate_roundtrip [OF h, of ?s]
  have "hydrate True (ReadValue (Some (persist ?s))) = Dispatch (INIT (items ?s))"
    by (rule conjunct1)
  with h p show ?thesis by simp
qed

subsection \<open>Operations on an id that is not in the cart\<close>

text \<open>
  C9: for every snapshot and every id that no line has, \<open>updateQuantity\<close>, \<open>increaseQty\<close>
  and \<open>decreaseQty\<close> with that id return the snapshot unchanged; none of them has an
  error path.
\<close>

theorem absent_id_unchanged:
  assumes "ident \<notin> id_field ` set (items state)"
  shows "updateQuantity state ident q = state \<and>
         increaseQty state ident d = state \<and>
         decreaseQty state ident d = state"
  using assms
  by (simp add: updateQuantity_def increaseQty_def decreaseQty_def Let_def map_absent
        clamp_not_below_one)

theorem absent_id_unchanged_witness:
  "updateQuantity \<lparr>items = [line ''a'' (Fin 100) (Fin 2)]\<rparr> ''zz'' (Fin 7)
     = \<lparr>items = [line ''a'' (Fin 100) (Fin 2)]\<rparr> \<and>
   increaseQty \<lparr>items = [line ''a'' (Fin 100) (Fin 2)]\<rparr> ''zz'' (Some (Fin 3))
     = \<lparr>items = [line ''a'' (Fin 100) (Fin 2)]\<rparr> \<and>
   decreaseQty \<lparr>items = [line ''a'' (Fin 100) (Fin 2)]\<rparr> ''zz'' (Some (Fin 3))
     = \<lparr>items = [line ''a'' (Fin 100) (Fin 2)]\<rparr>"
proof -
  have h: "''zz'' \<notin> id_field ` set (items \<lparr>items = [line ''a'' (Fin 100) (Fin 2)]\<rparr>)"
    by (simp add: line_def)
  show ?thesis
    using absent_id_unchanged [OF h, of "Fin 7" "Some (Fin 3)"] by simp
qed

subsection \<open>Adding a line whose id is in the cart\<close>

text \<open>
  C10: when the snapshot has a line with the id of the added line, \<open>addToCart\<close> keeps the
  number and the order of the lines, leaves every line with another id as it is, and
  changes a line with that id only in its quantity, which grows by the sanitised
  incoming quantity; the result does not depend on any other field of the incoming line.
\<close>

theorem add_existing_changes_only_quantity:
  assumes "id_field item \<in> id_field ` set (items state)"
  shows "length (items (addToCart state item)) = length (items state) \<and>
         (\<forall>k < length (items state).
            (id_field (items state ! k) \<noteq> id_field item \<longrightarrow>
               items (addToCart state item) ! k = items state ! k) \<and>
            (id_field (items state ! k) = id_field item \<longrightarrow>
               items (addToCart state item) ! k =
                 (items state ! k)\<lparr>quantity := quantity (items state ! k) +
                    Math_max (Fin 1) (Math_trunc (js_or (quantity item) (Fin 1)))\<rparr>)) \<and>
         (\<forall>other :: CartItem.
            id_field other = id_field item \<and> quantity other = quantity item \<longrightarrow>
            addToCart state other = addToCart state item)"
proof (intro conjI allI impI)
  show "length (items (addToCart state item)) = length (items state)"
    by (simp add: addToCart_present [OF assms])
next
  fix k assume "k < length (items state)" "id_field (items state ! k) \<noteq> id_field item"
  then show "items (addToCart state item) ! k = items state ! k"
    by (simp add: addToCart_present [OF assms])
next
  fix k assume "k < length (items state)" "id_field (items state ! k) = id_field item"
  then show "items (addToCart state item) ! k =
                 (items state ! k)\<lparr>quantity := quantity (items state ! k) +
                    Math_max (Fin 1) (Math_trunc (js_or (quantity item) (Fin 1)))\<rparr>"
    by (simp add: addToCart_present [OF assms])
next
  fix other :: CartItem
  assume o: "id_field other = id_field item \<and> quantity other = quantity item"
  obtain e where "find (\<lambda>i. id_field i = id_field item) (items state) = Some e"
    using find_present [OF assms] by blast
  with o show "addToCart state other = addToCart state item"
    by (simp add: addToCart_def)
qed

theorem add_existing_changes_only_quantity_witness:
  "length (items (addToCart \<lparr>items = [line ''a'' (Fin 100) (Fin 2), line ''b'' (Fin 50) (Fin 1)]\<rparr>
             ((line ''b'' (Fin 7) (Fin 3))\<lparr>name := ''other''\<rparr>))) = 2 \<and>
   items (addToCart \<lparr>items = [line ''a'' (Fin 100) (Fin 2), line ''b'' (Fin 50) (Fin 1)]\<rparr>
             ((line ''b'' (Fin 7) (Fin 3))\<lparr>name := ''other''\<rparr>)) ! 0 = line ''a'' (Fin 100) (Fin 2) \<and>
   items (addToCart \<lparr>items = [line ''a'' (Fin 100) (Fin 2), line ''b'' (Fin 50) (Fin 1)]\<rparr>
             ((line ''b'' (Fin 7) (Fin 3))\<lparr>name := ''other''\<rparr>)) ! 1 = line ''b'' (Fin 50) (Fin 4)"
proof -
  let ?s = "\<lparr>items = [line ''a'' (Fin 100) (Fin 2), line ''b'' (Fin 50) (Fin 1)]\<rparr>"
  let ?i = "(line ''b'' (Fin 7) (Fin 3))\<lparr>name := ''other''\<rparr>"
  have h: "id_field ?i \<in> id_field ` set (items ?s)" by (simp add: line_def)
  note t = add_existing_changes_only_quantity [OF h]
  from t [THEN conjunct1] have l: "length (items (addToCart ?s ?i)) = 2" by simp
  from t [THEN conjunct2, THEN conjunct1]
  have "id_field (items ?s ! 0) \<noteq> id_field ?i \<longrightarrow> items (addToCart ?s ?i) ! 0 = items ?s ! 0"
    by simp
  then have a: "items (addToCart ?s ?i) ! 0 = line ''a'' (Fin 100) (Fin 2)"
    by (simp add: line_def)
  from t [THEN conjunct2, THEN conjunct1]
  have "id_field (items ?s ! 1) = id_field ?i \<longrightarrow>
      items (addToCart ?s ?i) ! 1 = (items ?s ! 1)\<lparr>quantity := quantity (items ?s ! 1) +
                    Math_max (Fin 1) (Math_trunc (js_or (quantity ?i) (Fin 1)))\<rparr>"
    by simp
  then have b: "items (addToCart ?s ?i) ! 1 = line ''b'' (Fin 50) (Fin 4)"
    by (simp add: line_def js_or_def plus_jsnum_def)
  from l a b show ?thesis by blast
qed

end
